theory Spec2Isabelle
  imports Main "HOL-Library.Multiset"
begin

section \<open>Python values\<close>

text \<open>
  A Python \<open>str\<close> is a sequence of Unicode code points, and \<open>len\<close> counts code
  points. The program uses the character U+2218 (ring operator) as its concatenation
  token, which is one code point but three bytes, so a string is modelled as the list
  of its code points. \<open>py\<close> reads an ASCII literal.
\<close>

type_synonym pystr = "nat list"

definition py :: "string \<Rightarrow> pystr" where
  "py s = map of_char s"

text \<open>The concatenation token as \<open>regex.py\<close> and \<open>helper_functions.py\<close> write it: U+2218.\<close>

definition concat_token :: pystr where
  "concat_token = [8728]"

text \<open>
  The literal that \<open>tree.py\<close> (line 235) compares a node's value with. The file
  holds the six bytes C3 A2 CB 86 CB 9C there, which Python reads as the three code
  points U+00E2, U+02C6, U+02DC.
\<close>

definition tree_concat_literal :: pystr where
  "tree_concat_literal = [226, 710, 732]"

text \<open>The exceptions the modelled code can raise.\<close>

datatype error =
  InvalidExpression | IndexError | KeyError | TypeError | AttributeError | ReError
  | FileFormatError | ValueError | EOFError | InvalidToken

text \<open>
  A Python \<open>dict\<close> keeps its keys in insertion order: an association list with
  distinct keys. \<open>dict_set d k v\<close> is \<open>d[k] = v\<close>: it replaces the value of a key
  that is present, in place, and appends a new key at the end. \<open>dict_update d e\<close> is
  \<open>d.update(e)\<close>. A \<open>dict\<close> whose values are all \<open>None\<close> (the program's sets)
  is the list of its keys, with \<open>keys_add\<close> and \<open>keys_update\<close>.
\<close>

primrec dict_set :: "('k \<times> 'v) list \<Rightarrow> 'k \<Rightarrow> 'v \<Rightarrow> ('k \<times> 'v) list" where
  "dict_set [] k v = [(k, v)]"
| "dict_set (p # ps) k v = (if fst p = k then (k, v) # ps else p # dict_set ps k v)"

definition dict_update :: "('k \<times> 'v) list \<Rightarrow> ('k \<times> 'v) list \<Rightarrow> ('k \<times> 'v) list" where
  "dict_update d e = foldl (\<lambda>acc kv. dict_set acc (fst kv) (snd kv)) d e"

definition keys_add :: "'k list \<Rightarrow> 'k \<Rightarrow> 'k list" where
  "keys_add ks k = (if k \<in> set ks then ks else ks @ [k])"

definition keys_update :: "'k list \<Rightarrow> 'k list \<Rightarrow> 'k list" where
  "keys_update ks js = foldl keys_add ks js"

section \<open>tree.py: syntax tree nodes and the construction of the NFA\<close>

datatype node = Node (nvalue: pystr) (children: "node list") (ntype: nat) (is_symbol: bool)

record SimpleNFA =
  transition_function :: "(int \<times> (pystr \<times> int list) list) list"
  accept_states :: "int list"
  start_state :: int
  last_state :: int

definition epsilon_node_to_nfa :: "int \<Rightarrow> SimpleNFA" where
  "epsilon_node_to_nfa last_id =
     (let state_1 = last_id + 1 in
      \<lparr>transition_function = [], accept_states = [state_1],
       start_state = state_1, last_state = state_1\<rparr>)"

definition empty_set_to_nfa :: "int \<Rightarrow> SimpleNFA" where
  "empty_set_to_nfa last_id =
     (let state_1 = last_id + 1 in
      \<lparr>transition_function = [], accept_states = [],
       start_state = state_1, last_state = state_1\<rparr>)"

definition union_to_nfa :: "SimpleNFA \<Rightarrow> SimpleNFA \<Rightarrow> SimpleNFA" where
  "union_to_nfa left_nfa right_nfa =
     (let tf = dict_update (dict_update [] (transition_function left_nfa))
                 (transition_function right_nfa);
          union_epsilon_transitions =
            [(py ''e'', keys_add [start_state left_nfa] (start_state right_nfa))];
          new_state = last_state right_nfa + 1
      in \<lparr>transition_function = dict_set tf new_state union_epsilon_transitions,
          accept_states = accept_states left_nfa @ accept_states right_nfa,
          start_state = new_state, last_state = new_state\<rparr>)"

definition kleene_star_to_nfa :: "SimpleNFA \<Rightarrow> SimpleNFA" where
  "kleene_star_to_nfa nfa =
     (let tf = dict_update [] (transition_function nfa);
          new_state = last_state nfa + 1;
          tf1 = dict_set tf new_state [(py ''e'', [start_state nfa])];
          tf2 = foldl (\<lambda>t state. dict_set t state [(py ''e'', [start_state nfa])])
                  tf1 (accept_states nfa)
      in \<lparr>transition_function = tf2,
          accept_states = accept_states nfa @ [new_state],
          start_state = new_state, last_state = new_state\<rparr>)"

text \<open>
  One round of the loop of \<open>concat_to_nfa\<close>: an accept state of the left automaton
  with an epsilon entry gets the right start state added to it, any other accept state
  gets a new entry that holds only the epsilon edge.
\<close>

definition concat_link ::
  "int \<Rightarrow> (int \<times> (pystr \<times> int list) list) list \<Rightarrow> int
     \<Rightarrow> (int \<times> (pystr \<times> int list) list) list" where
  "concat_link right_start tf state =
     (case map_of tf state of
        None \<Rightarrow> dict_set tf state [(py ''e'', [right_start])]
      | Some entry \<Rightarrow>
          (case map_of entry (py ''e'') of
             None \<Rightarrow> dict_set tf state [(py ''e'', [right_start])]
           | Some targets \<Rightarrow>
               dict_set tf state (dict_set entry (py ''e'') (keys_add targets right_start))))"

definition concat_to_nfa :: "SimpleNFA \<Rightarrow> SimpleNFA \<Rightarrow> SimpleNFA" where
  "concat_to_nfa left_nfa right_nfa =
     (let tf = dict_update (dict_update [] (transition_function left_nfa))
                 (transition_function right_nfa)
      in \<lparr>transition_function =
            foldl (concat_link (start_state right_nfa)) tf (accept_states left_nfa),
          accept_states = accept_states right_nfa,
          start_state = start_state left_nfa,
          last_state = last_state right_nfa\<rparr>)"

definition base_node_to_nfa :: "node \<Rightarrow> int \<Rightarrow> SimpleNFA" where
  "base_node_to_nfa nd last_id =
     (let state_1 = last_id + 1; state_2 = last_id + 2 in
      \<lparr>transition_function = [(state_1, [(nvalue nd, [state_2])])],
       accept_states = [state_2], start_state = state_1, last_state = state_2\<rparr>)"

text \<open>
  \<open>depth_first_recursive\<close>. A node that is not a symbol and has children is taken
  for a star when its value is \<open>*\<close>, otherwise both operand automata are built first
  and the value is compared with \<open>|\<close> and with the literal of line 235; a node that
  matches neither falls through to \<open>base_node_to_nfa\<close>, as does a childless node that is
  neither \<open>N\<close> nor \<open>e\<close>. \<open>children[1]\<close> of a one-element list raises IndexError.
\<close>

fun depth_first_recursive :: "node \<Rightarrow> int \<Rightarrow> error + SimpleNFA" where
  "depth_first_recursive (Node v [] t is_sym) last_id =
     (if \<not> is_sym \<and> v = py ''N'' then Inr (empty_set_to_nfa last_id)
      else if \<not> is_sym \<and> v = py ''e'' then Inr (epsilon_node_to_nfa last_id)
      else Inr (base_node_to_nfa (Node v [] t is_sym) last_id))"
| "depth_first_recursive (Node v [c] t is_sym) last_id =
     (if is_sym then Inr (base_node_to_nfa (Node v [c] t is_sym) last_id)
      else if v = py ''*'' then
        (case depth_first_recursive c last_id of
           Inl e \<Rightarrow> Inl e
         | Inr operand_nfa \<Rightarrow> Inr (kleene_star_to_nfa operand_nfa))
      else Inl IndexError)"
| "depth_first_recursive (Node v (c0 # c1 # cs) t is_sym) last_id =
     (if is_sym then Inr (base_node_to_nfa (Node v (c0 # c1 # cs) t is_sym) last_id)
      else if v = py ''*'' then
        (case depth_first_recursive c0 last_id of
           Inl e \<Rightarrow> Inl e
         | Inr operand_nfa \<Rightarrow> Inr (kleene_star_to_nfa operand_nfa))
      else
        (case depth_first_recursive c0 last_id of
           Inl e \<Rightarrow> Inl e
         | Inr left_nfa \<Rightarrow>
             (case depth_first_recursive c1 (last_state left_nfa) of
                Inl e \<Rightarrow> Inl e
              | Inr right_nfa \<Rightarrow>
                  if v = py ''|'' then Inr (union_to_nfa left_nfa right_nfa)
                  else if v = tree_concat_literal then Inr (concat_to_nfa left_nfa right_nfa)
                  else Inr (base_node_to_nfa (Node v (c0 # c1 # cs) t is_sym) last_id))))"

definition depth_first :: "node \<Rightarrow> error + SimpleNFA" where
  "depth_first root = depth_first_recursive root 0"

section \<open>nfa.py: the NFA and its epsilon closures\<close>

text \<open>
  The states of an NFA are whatever the builder stored: the text of a state in a
  description file, an \<open>int\<close> when the NFA comes from a regular expression.
  \<open>accept_states\<close> is \<open>None\<close> for a description file with an empty accept line.
\<close>

record 'q NFA =
  nfa_alphabet :: "pystr list"
  nfa_number_of_states :: int
  nfa_transition_function :: "('q \<times> (pystr \<times> 'q list) list) list"
  nfa_start_state :: 'q
  nfa_accept_states :: "'q list option"

definition get_transition :: "'q NFA \<Rightarrow> 'q \<Rightarrow> pystr \<Rightarrow> 'q list" where
  "get_transition N state symbol =
     (case map_of (nfa_transition_function N) state of
        None \<Rightarrow> []
      | Some entry \<Rightarrow> (case map_of entry symbol of None \<Rightarrow> [] | Some targets \<Rightarrow> targets))"

text \<open>Every state that some transition of the NFA leads to.\<close>

definition nfa_targets :: "'q NFA \<Rightarrow> 'q set" where
  "nfa_targets N =
     (\<Union>entry \<in> snd ` set (nfa_transition_function N). \<Union>targets \<in> snd ` set entry. set targets)"

text \<open>
  The epsilon edges out of a state that are not in \<open>states_seen\<close> yet, in the
  order of the dictionary: what one round of the loop of \<open>_get_epsilon_closure\<close>
  appends to its queue.
\<close>

definition epsilon_new :: "'q NFA \<Rightarrow> 'q \<Rightarrow> 'q list \<Rightarrow> 'q list" where
  "epsilon_new N curr_state states_seen =
     filter (\<lambda>t. t \<notin> set states_seen) (get_transition N curr_state (py ''e''))"

lemma get_transition_targets: "set (get_transition N s a) \<subseteq> nfa_targets N"
proof
  fix x assume "x \<in> set (get_transition N s a)"
  then obtain entry where
    e: "map_of (nfa_transition_function N) s = Some entry" and
    x1: "x \<in> set (case map_of entry a of None \<Rightarrow> [] | Some targets \<Rightarrow> targets)"
    by (cases "map_of (nfa_transition_function N) s") (auto simp: get_transition_def)
  then obtain targets where
    t: "map_of entry a = Some targets" and x: "x \<in> set targets"
    by (cases "map_of entry a") auto
  from e have "(s, entry) \<in> set (nfa_transition_function N)" by (rule map_of_SomeD)
  moreover from t have "(a, targets) \<in> set entry" by (rule map_of_SomeD)
  ultimately show "x \<in> nfa_targets N"
    using x unfolding nfa_targets_def by force
qed

lemma epsilon_new_targets: "set (epsilon_new N c seen) \<subseteq> nfa_targets N - set seen"
  using get_transition_targets [of N c "py ''e''"] by (auto simp: epsilon_new_def)

lemma set_keys_add [simp]: "set (keys_add ks k) = insert k (set ks)"
  by (auto simp: keys_add_def)

text \<open>
  The loop of \<open>_get_epsilon_closure\<close>: a queue of states and the states seen so far.
  A state can sit in the queue more than once, and is handled again each time.
\<close>

function epsilon_loop :: "'q NFA \<Rightarrow> 'q list \<Rightarrow> 'q list \<Rightarrow> 'q list" where
  "epsilon_loop N [] states_seen = states_seen"
| "epsilon_loop N (curr_state # queue) states_seen =
     epsilon_loop N (queue @ epsilon_new N curr_state (keys_add states_seen curr_state))
       (keys_add states_seen curr_state)"
  by pat_completeness auto

termination
proof (relation "measures
    [\<lambda>(N, queue, seen). card ((nfa_targets N \<union> set queue) - set seen),
     \<lambda>(N, queue, seen). length (filter (\<lambda>q. q \<in> set seen) queue)]", goal_cases)
  case 1
  show ?case by simp
next
  case (2 N c queue seen)
  have fin: "finite (nfa_targets N)"
    by (auto simp: nfa_targets_def)
  let ?new = "epsilon_new N c (keys_add seen c)"
  have sub: "set ?new \<subseteq> nfa_targets N - insert c (set seen)"
    using epsilon_new_targets [of N c "keys_add seen c"] by simp
  show ?case
  proof (cases "c \<in> set seen")
    case True
    have "(nfa_targets N \<union> set (queue @ ?new)) - set (keys_add seen c)
            \<subseteq> (nfa_targets N \<union> set (c # queue)) - set seen"
      using sub by auto
    then have le: "card ((nfa_targets N \<union> set (queue @ ?new)) - set (keys_add seen c))
            \<le> card ((nfa_targets N \<union> set (c # queue)) - set seen)"
      using fin by (intro card_mono) auto
    have "filter (\<lambda>q. q \<in> set (keys_add seen c)) ?new = []"
      using sub by (auto simp: filter_empty_conv)
    then have "length (filter (\<lambda>q. q \<in> set (keys_add seen c)) (queue @ ?new))
            < length (filter (\<lambda>q. q \<in> set seen) (c # queue))"
      using True by (simp add: insert_absorb)
    with le show ?thesis by auto
  next
    case False
    have "(nfa_targets N \<union> set (queue @ ?new)) - set (keys_add seen c)
            \<subset> (nfa_targets N \<union> set (c # queue)) - set seen"
      using sub False by auto
    then have "card ((nfa_targets N \<union> set (queue @ ?new)) - set (keys_add seen c))
            < card ((nfa_targets N \<union> set (c # queue)) - set seen)"
      using fin by (intro psubset_card_mono) auto
    then show ?thesis by simp
  qed
qed

definition get_epsilon_closure :: "'q NFA \<Rightarrow> 'q \<Rightarrow> 'q list" where
  "get_epsilon_closure N state = epsilon_loop N [state] []"

definition get_transition_for_states_set :: "'q NFA \<Rightarrow> 'q list \<Rightarrow> pystr \<Rightarrow> 'q list" where
  "get_transition_for_states_set N set_of_states symbol =
     foldl (\<lambda>dest_states state. keys_update dest_states (get_transition N state symbol))
       [] set_of_states"

definition get_epsilon_closure_for_states_set :: "'q NFA \<Rightarrow> 'q list \<Rightarrow> 'q list" where
  "get_epsilon_closure_for_states_set N set_of_states =
     foldl (\<lambda>e_states state. keys_update e_states (get_epsilon_closure N state))
       [] set_of_states"

text \<open>
  The destination of a set of states on a symbol, as the body of the loop over the
  alphabet in \<open>_nfa_conversion\<close> computes it.
\<close>

definition dest_states :: "'q NFA \<Rightarrow> 'q list \<Rightarrow> pystr \<Rightarrow> 'q list" where
  "dest_states N curr_state_set symbol =
     (let transition_on_symbol = get_transition_for_states_set N curr_state_set symbol;
          transition_e_closure = get_epsilon_closure_for_states_set N transition_on_symbol
      in keys_update (keys_update [] transition_on_symbol) transition_e_closure)"

section \<open>dfa.py: the DFA\<close>

text \<open>
  The states of a DFA read from a description file are the texts of the file; the
  states of a DFA built by \<open>to_DFA\<close> are \<open>int\<close>s.
\<close>

record 's DFA =
  dfa_alphabet :: "pystr list"
  dfa_number_of_states :: int
  dfa_transition_function :: "('s \<times> (pystr \<times> 's) list) list"
  dfa_start_state :: 's
  dfa_accept_states :: "'s list"

text \<open>
  \<open>transition\<close> is \<open>self.transition_function[state][symbol]\<close>: \<open>table_get\<close> is
  the lookup in the dictionary of dictionaries, and a missing key raises.
\<close>

definition table_get :: "('s \<times> ('a \<times> 't) list) list \<Rightarrow> 's \<Rightarrow> 'a \<Rightarrow> 't option" where
  "table_get tf state symbol =
     (case map_of tf state of None \<Rightarrow> None | Some entry \<Rightarrow> map_of entry symbol)"

definition transition :: "'s DFA \<Rightarrow> 's \<Rightarrow> pystr \<Rightarrow> error + 's" where
  "transition D state symbol =
     (case table_get (dfa_transition_function D) state symbol of
        None \<Rightarrow> Inl KeyError
      | Some t \<Rightarrow> Inr t)"

text \<open>The loop of \<open>simulate\<close> over the characters of the string.\<close>

fun simulate_from :: "'s DFA \<Rightarrow> 's \<Rightarrow> pystr \<Rightarrow> error + 's" where
  "simulate_from D curr_state [] = Inr curr_state"
| "simulate_from D curr_state (ch # rest) =
     (case transition D curr_state [ch] of
        Inl e \<Rightarrow> Inl e
      | Inr next_state \<Rightarrow> simulate_from D next_state rest)"

definition simulate :: "'s DFA \<Rightarrow> pystr \<Rightarrow> error + bool" where
  "simulate D str =
     (case simulate_from D (dfa_start_state D) str of
        Inl e \<Rightarrow> Inl e
      | Inr curr_state \<Rightarrow> Inr (curr_state \<in> set (dfa_accept_states D)))"

section \<open>nfa.py: the subset construction\<close>

text \<open>
  Two dictionaries (used as sets of states) are equal when they have the same keys;
  a \<open>frozenset\<close> is compared and hashed the same way. A dictionary whose keys are
  frozensets is an association list looked up with \<open>same_set\<close>.
\<close>

definition same_set :: "'a list \<Rightarrow> 'a list \<Rightarrow> bool" where
  "same_set xs ys = (list_all (\<lambda>x. x \<in> set ys) xs \<and> list_all (\<lambda>y. y \<in> set xs) ys)"

primrec fs_lookup :: "('a list \<times> 'v) list \<Rightarrow> 'a list \<Rightarrow> 'v option" where
  "fs_lookup [] S = None"
| "fs_lookup (p # ps) S = (if same_set (fst p) S then Some (snd p) else fs_lookup ps S)"

primrec fs_set :: "('a list \<times> 'v) list \<Rightarrow> 'a list \<Rightarrow> 'v \<Rightarrow> ('a list \<times> 'v) list" where
  "fs_set [] S v = [(S, v)]"
| "fs_set (p # ps) S v = (if same_set (fst p) S then (fst p, v) # ps else p # fs_set ps S v)"

definition fs_delete :: "('a list \<times> 'v) list \<Rightarrow> 'a list \<Rightarrow> ('a list \<times> 'v) list" where
  "fs_delete m S = filter (\<lambda>p. \<not> same_set (fst p) S) m"

definition dict_delete :: "('k \<times> 'v) list \<Rightarrow> 'k \<Rightarrow> ('k \<times> 'v) list" where
  "dict_delete m k = filter (\<lambda>p. fst p \<noteq> k) m"

text \<open>
  While the DFA is built, a value of its transition table is first the frozenset of
  NFA states that the transition leads to, and later (\<open>_finalize_dfa\<close>) the \<open>int\<close>
  of that set.
\<close>

datatype 'q cell = FrozenSet "'q list" | IntState int

text \<open>
  What \<open>_nfa_conversion\<close> keeps between the rounds of its loop: the fields of the
  DFA it fills (\<open>conv_\<close>) and its local variables.
\<close>

record 'q conversion =
  conv_start_state :: int
  conv_transition_function :: "(int \<times> (pystr \<times> 'q cell) list) list"
  conv_number_of_states :: int
  states_handled :: "'q list list"
  dfa_state_int_mapping :: "('q list \<times> int) list"
  dfa_state_int_mapping_reverse :: "(int \<times> 'q list) list"
  next_state_id :: int
  found_empty :: bool

text \<open>
  One round of the loop over the alphabet, on the transitions of the current set, the
  queue and \<open>found_empty\<close>.
\<close>

definition scan_symbol ::
  "'q NFA \<Rightarrow> 'q list \<Rightarrow> (pystr \<times> 'q cell) list \<times> 'q list list \<times> bool \<Rightarrow> pystr
     \<Rightarrow> (pystr \<times> 'q cell) list \<times> 'q list list \<times> bool" where
  "scan_symbol N curr_state_set acc symbol =
     (let dest = dest_states N curr_state_set symbol
      in (dict_set (fst acc) symbol (FrozenSet dest),
          (if dest \<noteq> [] then fst (snd acc) @ [dest] else fst (snd acc)),
          (if dest \<noteq> [] then snd (snd acc) else True)))"

definition scan_alphabet ::
  "'q NFA \<Rightarrow> 'q list \<Rightarrow> 'q list list \<Rightarrow> bool
     \<Rightarrow> (pystr \<times> 'q cell) list \<times> 'q list list \<times> bool" where
  "scan_alphabet N curr_state_set queue fe =
     foldl (scan_symbol N curr_state_set) ([], queue, fe) (nfa_alphabet N)"

text \<open>The rest of the round: the id of the set, and the updates of the variables.\<close>

definition record_state ::
  "'q list \<Rightarrow> (pystr \<times> 'q cell) list \<Rightarrow> bool \<Rightarrow> 'q conversion \<Rightarrow> 'q conversion" where
  "record_state curr_state_set transitions fe c =
     (let known = fs_lookup (dfa_state_int_mapping c) curr_state_set;
          set_id = (case known of Some i \<Rightarrow> i | None \<Rightarrow> next_state_id c)
      in c\<lparr>dfa_state_int_mapping :=
             (case known of
                Some i \<Rightarrow> dfa_state_int_mapping c
              | None \<Rightarrow> fs_set (dfa_state_int_mapping c) curr_state_set set_id),
           dfa_state_int_mapping_reverse :=
             (case known of
                Some i \<Rightarrow> dfa_state_int_mapping_reverse c
              | None \<Rightarrow> dict_set (dfa_state_int_mapping_reverse c) set_id curr_state_set),
           next_state_id := next_state_id c + 1,
           states_handled := states_handled c @ [curr_state_set],
           conv_transition_function :=
             dict_set (conv_transition_function c) set_id transitions,
           conv_number_of_states := conv_number_of_states c + 1,
           found_empty := fe\<rparr>)"

text \<open>Facts that the termination of the loop of \<open>_nfa_conversion\<close> rests on.\<close>

lemma same_set_iff: "same_set xs ys \<longleftrightarrow> set xs = set ys"
  by (auto simp: same_set_def list_all_iff)

lemma list_ex_same_set: "list_ex (same_set S) H \<longleftrightarrow> set S \<in> set ` set H"
  by (auto simp: list_ex_iff same_set_iff)

lemma set_keys_update [simp]: "set (keys_update ks js) = set ks \<union> set js"
  unfolding keys_update_def by (induction js arbitrary: ks) auto

lemma set_foldl_keys_update:
  "set (foldl (\<lambda>acc s. keys_update acc (f s)) init xs) = set init \<union> (\<Union>s \<in> set xs. set (f s))"
  by (induction xs arbitrary: init) auto

lemma set_get_transition_for_states_set:
  "set (get_transition_for_states_set N S a) = (\<Union>s \<in> set S. set (get_transition N s a))"
  by (simp add: get_transition_for_states_set_def set_foldl_keys_update)

lemma set_get_epsilon_closure_for_states_set:
  "set (get_epsilon_closure_for_states_set N S) = (\<Union>s \<in> set S. set (get_epsilon_closure N s))"
  by (simp add: get_epsilon_closure_for_states_set_def set_foldl_keys_update)

lemma epsilon_loop_subset:
  "set (epsilon_loop N queue seen) \<subseteq> set queue \<union> set seen \<union> nfa_targets N"
proof (induction N queue seen rule: epsilon_loop.induct)
  case (1 N seen)
  show ?case by simp
next
  case (2 N c queue seen)
  then show ?case
    using epsilon_new_targets [of N c "keys_add seen c"] by auto
qed

lemma get_epsilon_closure_subset:
  "set (get_epsilon_closure N s) \<subseteq> insert s (nfa_targets N)"
  using epsilon_loop_subset [of N "[s]" "[]"] by (auto simp: get_epsilon_closure_def)

lemma dest_states_targets: "set (dest_states N S a) \<subseteq> nfa_targets N"
proof -
  have t: "set (get_transition_for_states_set N S a) \<subseteq> nfa_targets N"
    using get_transition_targets [of N _ a]
    by (auto simp: set_get_transition_for_states_set)
  then have "set (get_epsilon_closure_for_states_set N (get_transition_for_states_set N S a))
               \<subseteq> nfa_targets N"
    using get_epsilon_closure_subset [of N]
    by (fastforce simp: set_get_epsilon_closure_for_states_set)
  with t show ?thesis
    by (simp add: dest_states_def Let_def)
qed

lemma foldl_scan_symbol_queue:
  "fst (snd (foldl (scan_symbol N S) (t, queue, fe) as))
     = queue @ filter (\<lambda>d. d \<noteq> []) (map (dest_states N S) as)"
  by (induction as arbitrary: t queue fe) (auto simp: scan_symbol_def Let_def)

lemma scan_alphabet_queue:
  "fst (snd (scan_alphabet N S queue fe))
     = queue @ filter (\<lambda>d. d \<noteq> []) (map (dest_states N S) (nfa_alphabet N))"
  by (simp add: scan_alphabet_def foldl_scan_symbol_queue)

lemma states_handled_record_state [simp]:
  "states_handled (record_state S t fe c) = states_handled c @ [S]"
  by (simp add: record_state_def Let_def)

text \<open>
  The loop of \<open>_nfa_conversion\<close>: sets of states are taken from the queue, and a set
  that is not among \<open>states_handled\<close> gets its transitions and its id.
\<close>

function conversion_loop :: "'q NFA \<Rightarrow> 'q list list \<Rightarrow> 'q conversion \<Rightarrow> 'q conversion" where
  "conversion_loop N [] c = c"
| "conversion_loop N (curr_state_set # queue) c =
     (if list_ex (same_set curr_state_set) (states_handled c) then conversion_loop N queue c
      else
        (let r = scan_alphabet N curr_state_set queue (found_empty c)
         in conversion_loop N (fst (snd r))
              (record_state curr_state_set (fst r) (snd (snd r)) c)))"
  by pat_completeness auto

termination
proof (relation "measures
    [\<lambda>(N, queue, c). card ((Pow (nfa_targets N) \<union> set ` set queue) - set ` set (states_handled c)),
     \<lambda>(N, queue, c). length queue]", goal_cases)
  case 1
  show ?case by simp
next
  case (2 N S queue c)
  have fin: "finite (Pow (nfa_targets N) \<union> set ` set (S # queue))"
    by (auto simp: nfa_targets_def)
  have "(Pow (nfa_targets N) \<union> set ` set queue) - set ` set (states_handled c)
          \<subseteq> (Pow (nfa_targets N) \<union> set ` set (S # queue)) - set ` set (states_handled c)"
    by auto
  then have "card ((Pow (nfa_targets N) \<union> set ` set queue) - set ` set (states_handled c))
          \<le> card ((Pow (nfa_targets N) \<union> set ` set (S # queue)) - set ` set (states_handled c))"
    using fin by (intro card_mono) auto
  then show ?case by auto
next
  case (3 N S queue c r)
  have fin: "finite (Pow (nfa_targets N) \<union> set ` set (S # queue))"
    by (auto simp: nfa_targets_def)
  have new: "set ` set (fst (snd r)) \<subseteq> Pow (nfa_targets N) \<union> set ` set queue"
    using dest_states_targets [of N S] unfolding 3(2) scan_alphabet_queue by auto
  have fresh: "set S \<notin> set ` set (states_handled c)"
    using 3(1) by (simp add: list_ex_same_set)
  have "(Pow (nfa_targets N) \<union> set ` set (fst (snd r)))
           - set ` set (states_handled (record_state S (fst r) (snd (snd r)) c))
          \<subset> (Pow (nfa_targets N) \<union> set ` set (S # queue)) - set ` set (states_handled c)"
    using new fresh by auto
  then have "card ((Pow (nfa_targets N) \<union> set ` set (fst (snd r)))
           - set ` set (states_handled (record_state S (fst r) (snd (snd r)) c)))
          < card ((Pow (nfa_targets N) \<union> set ` set (S # queue)) - set ` set (states_handled c))"
    using fin by (intro psubset_card_mono) auto
  then show ?case by simp
qed

text \<open>\<open>_generate_int_mapping\<close>, without and with \<open>reverse\<close>.\<close>

definition generate_int_mapping :: "'q list \<Rightarrow> ('q list \<times> int) list" where
  "generate_int_mapping start = fs_set (fs_set [] [] 1) start 2"

definition generate_int_mapping_reverse :: "'q list \<Rightarrow> (int \<times> 'q list) list" where
  "generate_int_mapping_reverse start = dict_set (dict_set [] 1 []) 2 start"

text \<open>One round of the loop that gives state 1 its transition to itself on a symbol.\<close>

definition reject_loop ::
  "(int \<times> (pystr \<times> 'q cell) list) list \<Rightarrow> pystr \<Rightarrow> (int \<times> (pystr \<times> 'q cell) list) list" where
  "reject_loop tf symbol =
     (case map_of tf 1 of
        Some entry \<Rightarrow> dict_set tf 1 (dict_set entry symbol (IntState 1))
      | None \<Rightarrow> dict_set tf 1 [(symbol, IntState 1)])"

text \<open>
  \<open>_nfa_conversion\<close>: the variables before the loop, the loop from the queue that
  holds the start set, and the treatment of state 1 after the loop.
\<close>

definition initial_conversion :: "'q list \<Rightarrow> 'q conversion" where
  "initial_conversion start =
     \<lparr>conv_start_state = 2, conv_transition_function = [],
      conv_number_of_states = 1, states_handled = [],
      dfa_state_int_mapping = generate_int_mapping start,
      dfa_state_int_mapping_reverse = generate_int_mapping_reverse start,
      next_state_id = 2, found_empty = False\<rparr>"

definition explore :: "'q NFA \<Rightarrow> 'q list \<Rightarrow> 'q conversion" where
  "explore N start = conversion_loop N [start] (initial_conversion start)"

definition nfa_conversion :: "'q NFA \<Rightarrow> 'q list \<Rightarrow> 'q conversion" where
  "nfa_conversion N start =
     (let c = explore N start
      in if \<not> found_empty c
         then c\<lparr>dfa_state_int_mapping := fs_delete (dfa_state_int_mapping c) [],
                dfa_state_int_mapping_reverse := dict_delete (dfa_state_int_mapping_reverse c) 1,
                conv_number_of_states := conv_number_of_states c - 1,
                conv_start_state := conv_start_state c - 1\<rparr>
         else c\<lparr>conv_transition_function :=
                  foldl reject_loop (conv_transition_function c) (nfa_alphabet N)\<rparr>)"

text \<open>A loop whose body can raise: the first error ends it.\<close>

primrec fold_err :: "('a \<Rightarrow> 'b \<Rightarrow> error + 'a) \<Rightarrow> 'a \<Rightarrow> 'b list \<Rightarrow> error + 'a" where
  "fold_err f a [] = Inr a"
| "fold_err f a (x # xs) = (case f a x of Inl e \<Rightarrow> Inl e | Inr a' \<Rightarrow> fold_err f a' xs)"

text \<open>
  \<open>_finalize_dfa\<close>, the search for an accept state of the NFA in the set of a DFA
  state: \<open>nfa_state in self.accept_states\<close> raises TypeError when the accept states
  are \<open>None\<close>, and is not evaluated when the set is empty.
\<close>

definition accept_check :: "'q NFA \<Rightarrow> 'q list \<Rightarrow> error + bool" where
  "accept_check N corresponding_states_set =
     (if corresponding_states_set = [] then Inr False
      else (case nfa_accept_states N of
              None \<Rightarrow> Inl TypeError
            | Some acc \<Rightarrow> Inr (list_ex (\<lambda>nfa_state. nfa_state \<in> set acc) corresponding_states_set)))"

text \<open>
  The replacement of the destination set of one symbol by its \<open>int\<close>. The value
  found in the table is the key of the lookup in \<open>int_mapping\<close>: a frozenset that has
  no id raises KeyError, and so does an \<open>int\<close>, which is the key of no entry.
\<close>

definition convert_symbol ::
  "('q list \<times> int) list \<Rightarrow> (pystr \<times> 'q cell) list \<Rightarrow> pystr \<Rightarrow> error + (pystr \<times> 'q cell) list" where
  "convert_symbol int_mapping entry symbol =
     (case map_of entry symbol of
        None \<Rightarrow> Inl KeyError
      | Some (FrozenSet state_set) \<Rightarrow>
          (case fs_lookup int_mapping state_set of
             None \<Rightarrow> Inl KeyError
           | Some int_state \<Rightarrow> Inr (dict_set entry symbol (IntState int_state)))
      | Some (IntState i) \<Rightarrow> Inl KeyError)"

text \<open>One round of the loop of \<open>_finalize_dfa\<close> over the states of the table.\<close>

definition finalize_state ::
  "'q NFA \<Rightarrow> 'q conversion \<Rightarrow> (int \<times> (pystr \<times> 'q cell) list) list \<times> int list \<Rightarrow> int
     \<Rightarrow> error + (int \<times> (pystr \<times> 'q cell) list) list \<times> int list" where
  "finalize_state N c acc state =
     (case map_of (dfa_state_int_mapping_reverse c) state of
        None \<Rightarrow> Inl KeyError
      | Some corresponding_states_set \<Rightarrow>
          (case accept_check N corresponding_states_set of
             Inl e \<Rightarrow> Inl e
           | Inr found_accept_state \<Rightarrow>
               (let accept = (if found_accept_state then keys_add (snd acc) state else snd acc)
                in if state \<noteq> 1 then
                     (case map_of (fst acc) state of
                        None \<Rightarrow> Inl KeyError
                      | Some entry \<Rightarrow>
                          (case fold_err (convert_symbol (dfa_state_int_mapping c)) entry
                                  (nfa_alphabet N) of
                             Inl e \<Rightarrow> Inl e
                           | Inr entry' \<Rightarrow> Inr (dict_set (fst acc) state entry', accept)))
                   else Inr (fst acc, accept))))"

text \<open>\<open>_generate_shifted_transition_value\<close> and \<open>_generate_shifted_keys_dict\<close>.\<close>

definition shift_value ::
  "(pystr \<times> 'q cell) list \<Rightarrow> pystr \<times> 'q cell \<Rightarrow> error + (pystr \<times> 'q cell) list" where
  "shift_value new_values_dict kv =
     (case snd kv of
        IntState i \<Rightarrow> Inr (dict_set new_values_dict (fst kv) (IntState (i - 1)))
      | FrozenSet S \<Rightarrow> Inl TypeError)"

definition generate_shifted_transition_value ::
  "(pystr \<times> 'q cell) list \<Rightarrow> error + (pystr \<times> 'q cell) list" where
  "generate_shifted_transition_value v = fold_err shift_value [] v"

definition shift_entry ::
  "(int \<times> (pystr \<times> 'q cell) list) list \<Rightarrow> int \<times> (pystr \<times> 'q cell) list
     \<Rightarrow> error + (int \<times> (pystr \<times> 'q cell) list) list" where
  "shift_entry new_transition_function kv =
     (case generate_shifted_transition_value (snd kv) of
        Inl e \<Rightarrow> Inl e
      | Inr new_value \<Rightarrow> Inr (dict_set new_transition_function (fst kv - 1) new_value))"

definition generate_shifted_keys_dict ::
  "(int \<times> (pystr \<times> 'q cell) list) list \<Rightarrow> error + (int \<times> (pystr \<times> 'q cell) list) list" where
  "generate_shifted_keys_dict tf = fold_err shift_entry [] tf"

definition generate_shifted_keys :: "int list \<Rightarrow> int list" where
  "generate_shifted_keys accept = foldl (\<lambda>new state. keys_add new (state - 1)) [] accept"

text \<open>
  When \<open>_finalize_dfa\<close> is through, every value of the table is an \<open>int\<close>, and the
  table is read as the table of a DFA over \<open>int\<close>s. A frozenset still in the table,
  which a finished run does not leave, is reported as TypeError.
\<close>

definition read_value :: "(pystr \<times> int) list \<Rightarrow> pystr \<times> 'q cell \<Rightarrow> error + (pystr \<times> int) list" where
  "read_value entry kv =
     (case snd kv of
        IntState i \<Rightarrow> Inr (entry @ [(fst kv, i)])
      | FrozenSet S \<Rightarrow> Inl TypeError)"

definition read_entry ::
  "(int \<times> (pystr \<times> int) list) list \<Rightarrow> int \<times> (pystr \<times> 'q cell) list
     \<Rightarrow> error + (int \<times> (pystr \<times> int) list) list" where
  "read_entry tf kv =
     (case fold_err read_value [] (snd kv) of
        Inl e \<Rightarrow> Inl e
      | Inr entry \<Rightarrow> Inr (tf @ [(fst kv, entry)]))"

definition finalize_dfa :: "'q NFA \<Rightarrow> 'q conversion \<Rightarrow> error + int DFA" where
  "finalize_dfa N c =
     (case fold_err (finalize_state N c) (conv_transition_function c, [])
             (map fst (conv_transition_function c)) of
        Inl e \<Rightarrow> Inl e
      | Inr (tf, accept) \<Rightarrow>
          (case (if 1 \<notin> fst ` set tf
                 then (case generate_shifted_keys_dict tf of
                         Inl e \<Rightarrow> Inl e
                       | Inr shifted \<Rightarrow> Inr (shifted, generate_shifted_keys accept))
                 else Inr (tf, accept)) of
             Inl e \<Rightarrow> Inl e
           | Inr (tf', accept') \<Rightarrow>
               (case fold_err read_entry [] tf' of
                  Inl e \<Rightarrow> Inl e
                | Inr table \<Rightarrow>
                    Inr \<lparr>dfa_alphabet = nfa_alphabet N,
                         dfa_number_of_states = conv_number_of_states c,
                         dfa_transition_function = table,
                         dfa_start_state = conv_start_state c,
                         dfa_accept_states = accept'\<rparr>)))"

definition to_DFA :: "'q NFA \<Rightarrow> error + int DFA" where
  "to_DFA N =
     (let start_state_e_closure = get_epsilon_closure N (nfa_start_state N)
      in finalize_dfa N (nfa_conversion N start_state_e_closure))"

section \<open>helper\_functions.py: the tokens of a regular expression\<close>

text \<open>
  The alphabet of a regular expression is the list of the one-character strings of
  the alphabet line (\<open>[ch for ch in alphabet_str]\<close>).

  \<open>tokenize\<close> compiles a pattern of four alternatives and returns what
  \<open>findall\<close> finds: at each position the first alternative that matches, in the
  order backslash and one of \<open>N|()*\<close>, two backslashes, one of \<open>eN|*()\<close>, a
  character of the alphabet that is not one of \<open>eN|*()\<close>; a character that starts
  none of them is skipped. When the alphabet has no character for the last alternative,
  its character class is empty and \<open>re.compile\<close> raises.
\<close>

definition backslash :: nat where
  "backslash = 92"

definition alphabet_class :: "pystr list \<Rightarrow> nat \<Rightarrow> bool" where
  "alphabet_class alphabet c = ([c] \<in> set alphabet \<and> c \<notin> set (py ''eN|*()''))"

fun findall_tokens :: "pystr list \<Rightarrow> pystr \<Rightarrow> pystr list" where
  "findall_tokens alphabet [] = []"
| "findall_tokens alphabet [c] =
     (if c \<in> set (py ''eN|*()'') then [[c]]
      else if alphabet_class alphabet c then [[c]]
      else [])"
| "findall_tokens alphabet (c # d # rest) =
     (if c = backslash \<and> d \<in> set (py ''N|()*'') then [c, d] # findall_tokens alphabet rest
      else if c = backslash \<and> d = backslash then [c, d] # findall_tokens alphabet rest
      else if c \<in> set (py ''eN|*()'') then [c] # findall_tokens alphabet (d # rest)
      else if alphabet_class alphabet c then [c] # findall_tokens alphabet (d # rest)
      else findall_tokens alphabet (d # rest))"

definition tokenize :: "pystr \<Rightarrow> pystr list \<Rightarrow> error + pystr list" where
  "tokenize expression alphabet =
     (if filter (\<lambda>char. hd char \<notin> set (py ''eN|*()'')) alphabet = [] then Inl ReError
      else Inr (findall_tokens alphabet expression))"

text \<open>\<open>insert_concat\<close>: the tests on a token and on the token after it.\<close>

definition literal_token :: "pystr list \<Rightarrow> pystr \<Rightarrow> bool" where
  "literal_token alphabet token =
     (length token > 1
      \<or> (token \<in> set alphabet \<and> token \<notin> set [py ''('', py '')'', py ''*'', py ''|'']))"

definition concat_follows :: "pystr list \<Rightarrow> pystr \<Rightarrow> bool" where
  "concat_follows alphabet next_token =
     (literal_token alphabet next_token \<or> next_token = py ''('')"

fun insert_concat :: "pystr list \<Rightarrow> pystr list \<Rightarrow> pystr list" where
  "insert_concat [] alphabet = []"
| "insert_concat [token] alphabet = [token]"
| "insert_concat (token # next_token # rest) alphabet =
     (if literal_token alphabet token then
        (if concat_follows alphabet next_token
         then token # concat_token # insert_concat (next_token # rest) alphabet
         else token # insert_concat (next_token # rest) alphabet)
      else if token = py '')'' then
        (if concat_follows alphabet next_token
         then token # concat_token # insert_concat (next_token # rest) alphabet
         else token # insert_concat (next_token # rest) alphabet)
      else if token = py ''*'' then
        (if concat_follows alphabet next_token
         then token # concat_token # insert_concat (next_token # rest) alphabet
         else token # insert_concat (next_token # rest) alphabet)
      else token # insert_concat (next_token # rest) alphabet)"

section \<open>regex.py: the parser\<close>

definition prescedence_mapping :: "pystr \<Rightarrow> nat option" where
  "prescedence_mapping operator =
     map_of [(py ''('', 3), (py '')'', 3), (py ''*'', 2), (concat_token, 1), (py ''|'', 0)] operator"

definition check_operator_prescedence :: "pystr \<Rightarrow> pystr \<Rightarrow> error + pystr" where
  "check_operator_prescedence operator1 operator2 =
     (case prescedence_mapping operator1 of
        None \<Rightarrow> Inl KeyError
      | Some op1_pres \<Rightarrow>
          (case prescedence_mapping operator2 of
             None \<Rightarrow> Inl KeyError
           | Some op2_pres \<Rightarrow> Inr (if op2_pres \<ge> op1_pres then operator2 else operator1)))"

definition operator_operand_mapping :: "pystr \<Rightarrow> nat option" where
  "operator_operand_mapping operator =
     map_of [(concat_token, 2), (py ''*'', 1), (py ''|'', 2)] operator"

text \<open>
  The two stacks are lists with the top of the stack first. \<open>pop_operands\<close> is the
  loop that pops the operands of an operator and inserts each at the front of the
  children of its node: \<open>pop\<close> on an empty stack raises IndexError.
\<close>

fun pop_operands :: "nat \<Rightarrow> node list \<Rightarrow> node list \<Rightarrow> error + node list \<times> node list" where
  "pop_operands 0 operand_stack child_nodes = Inr (child_nodes, operand_stack)"
| "pop_operands (Suc n) [] child_nodes = Inl IndexError"
| "pop_operands (Suc n) (operand # operand_stack) child_nodes =
     pop_operands n operand_stack (operand # child_nodes)"

text \<open>
  The reduction of an operator to a node, which the parser writes out three times.
  Two of them test \<open>len(operand_stack) < num_operands\<close> before they pop
  (\<open>checked\<close>); the one in the branch of \<open>)\<close> does not.
\<close>

definition reduce_operator :: "bool \<Rightarrow> pystr \<Rightarrow> node list \<Rightarrow> error + node list" where
  "reduce_operator checked operator operand_stack =
     (case operator_operand_mapping operator of
        None \<Rightarrow> Inl KeyError
      | Some num_operands \<Rightarrow>
          if checked \<and> length operand_stack < num_operands then Inl InvalidExpression
          else (case pop_operands num_operands operand_stack [] of
                  Inl e \<Rightarrow> Inl e
                | Inr (child_nodes, rest) \<Rightarrow> Inr (Node operator child_nodes 1 False # rest)))"

text \<open>The loop of the branch of \<open>)\<close>, entered with the operator popped first.\<close>

fun close_parenthesis ::
  "pystr \<Rightarrow> node list \<Rightarrow> pystr list \<Rightarrow> error + node list \<times> pystr list" where
  "close_parenthesis operator operand_stack operator_stack =
     (if operator = py ''('' then Inr (operand_stack, operator_stack)
      else (case reduce_operator False operator operand_stack of
              Inl e \<Rightarrow> Inl e
            | Inr operand_stack' \<Rightarrow>
                (case operator_stack of
                   [] \<Rightarrow> Inl InvalidExpression
                 | operator' # rest \<Rightarrow> close_parenthesis operator' operand_stack' rest)))"

text \<open>The loop of the branch of an operator token, up to the push of the token.\<close>

fun pop_higher ::
  "pystr \<Rightarrow> node list \<Rightarrow> pystr list \<Rightarrow> error + node list \<times> pystr list" where
  "pop_higher token operand_stack [] = Inr (operand_stack, [])"
| "pop_higher token operand_stack (top_operator # rest) =
     (case check_operator_prescedence token top_operator of
        Inl e \<Rightarrow> Inl e
      | Inr higher_pres \<Rightarrow>
          if higher_pres = top_operator \<and> top_operator \<noteq> py ''('' then
            (case reduce_operator True top_operator operand_stack of
               Inl e \<Rightarrow> Inl e
             | Inr operand_stack' \<Rightarrow> pop_higher token operand_stack' rest)
          else Inr (operand_stack, top_operator # rest))"

text \<open>One round of the loop of \<open>_parse_regex\<close> over the tokens.\<close>

definition parse_token ::
  "pystr list \<Rightarrow> node list \<times> pystr list \<Rightarrow> pystr \<Rightarrow> error + node list \<times> pystr list" where
  "parse_token alphabet stacks token =
     (if (token \<in> set alphabet
            \<and> token \<notin> set [py ''('', py '')'', py ''*'', py ''|'', py ''N''])
          \<or> length token > 1 \<or> token = py ''e'' \<or> token = py ''N''
      then Inr (Node (if length token > 1 then [last token] else token) [] 0
                  (token \<noteq> py ''e'' \<and> token \<noteq> py ''N'') # fst stacks,
                snd stacks)
      else if token = py ''('' then Inr (fst stacks, token # snd stacks)
      else if token = py '')'' then
        (case snd stacks of
           [] \<Rightarrow> Inr stacks
         | operator # rest \<Rightarrow> close_parenthesis operator (fst stacks) rest)
      else if token = py ''*'' \<or> token = py ''|'' \<or> token = concat_token then
        (case pop_higher token (fst stacks) (snd stacks) of
           Inl e \<Rightarrow> Inl e
         | Inr (operand_stack, operator_stack) \<Rightarrow> Inr (operand_stack, token # operator_stack))
      else Inr stacks)"

definition parse_regex :: "pystr \<Rightarrow> pystr list \<Rightarrow> error + node list \<times> pystr list" where
  "parse_regex regex alphabet =
     (case tokenize regex alphabet of
        Inl e \<Rightarrow> Inl e
      | Inr tokenized_regex \<Rightarrow>
          fold_err (parse_token alphabet) ([], []) (insert_concat tokenized_regex alphabet))"

fun empty_operator_stack :: "node list \<Rightarrow> pystr list \<Rightarrow> error + node" where
  "empty_operator_stack operand_stack [] =
     (case operand_stack of [] \<Rightarrow> Inl IndexError | operand_root # rest \<Rightarrow> Inr operand_root)"
| "empty_operator_stack operand_stack (operator # operator_stack) =
     (if operator = py ''('' then Inl InvalidExpression
      else (case reduce_operator True operator operand_stack of
              Inl e \<Rightarrow> Inl e
            | Inr operand_stack' \<Rightarrow> empty_operator_stack operand_stack' operator_stack))"

text \<open>
  The regular expression object. \<open>RegEx_init\<close> is the constructor after the two
  lines of the file are read: InvalidExpression is caught and marks the expression
  invalid, any other exception leaves the constructor.
\<close>

record RegEx =
  regex_alphabet :: "pystr list"
  regex_string :: pystr
  invalid :: bool
  regex_nfa :: "int NFA option"

definition finalize_simple_nfa :: "pystr list \<Rightarrow> SimpleNFA \<Rightarrow> int NFA" where
  "finalize_simple_nfa alphabet simple_nfa =
     \<lparr>nfa_alphabet = alphabet,
      nfa_number_of_states = last_state simple_nfa,
      nfa_transition_function = transition_function simple_nfa,
      nfa_start_state = start_state simple_nfa,
      nfa_accept_states = Some (accept_states simple_nfa)\<rparr>"

definition to_nfa :: "pystr list \<Rightarrow> node \<Rightarrow> error + int NFA" where
  "to_nfa alphabet root_node =
     (case depth_first root_node of
        Inl e \<Rightarrow> Inl e
      | Inr simple_nfa \<Rightarrow> Inr (finalize_simple_nfa alphabet simple_nfa))"

definition build_nfa :: "pystr list \<Rightarrow> pystr \<Rightarrow> error + int NFA" where
  "build_nfa alphabet regex =
     (case parse_regex regex alphabet of
        Inl e \<Rightarrow> Inl e
      | Inr stacks \<Rightarrow>
          (case empty_operator_stack (fst stacks) (snd stacks) of
             Inl e \<Rightarrow> Inl e
           | Inr root_node \<Rightarrow> to_nfa alphabet root_node))"

definition RegEx_init :: "pystr \<Rightarrow> pystr \<Rightarrow> error + RegEx" where
  "RegEx_init alphabet_str regex_str =
     (let alphabet = map (\<lambda>ch. [ch]) alphabet_str
      in case build_nfa alphabet regex_str of
           Inl e \<Rightarrow>
             if e = InvalidExpression
             then Inr \<lparr>regex_alphabet = alphabet, regex_string = regex_str,
                       invalid = True, regex_nfa = None\<rparr>
             else Inl e
         | Inr nfa \<Rightarrow>
             Inr \<lparr>regex_alphabet = alphabet, regex_string = regex_str,
                  invalid = False, regex_nfa = Some nfa\<rparr>)"

definition RegEx_simulate :: "RegEx \<Rightarrow> pystr \<Rightarrow> error + bool" where
  "RegEx_simulate R str =
     (if invalid R then Inr False
      else (case regex_nfa R of
              None \<Rightarrow> Inl AttributeError
            | Some nfa \<Rightarrow>
                (case to_DFA nfa of
                   Inl e \<Rightarrow> Inl e
                 | Inr dfa \<Rightarrow> simulate dfa str)))"

text \<open>
  The script at the end of \<open>regex.py\<close>: the expression is built once and a string
  is run through it.
\<close>

definition RegEx_run :: "pystr \<Rightarrow> pystr \<Rightarrow> pystr \<Rightarrow> error + bool" where
  "RegEx_run alphabet_str regex_str str =
     (case RegEx_init alphabet_str regex_str of
        Inl e \<Rightarrow> Inl e
      | Inr R \<Rightarrow> RegEx_simulate R str)"

section \<open>dfa.py: reading a DFA from a description file\<close>

text \<open>
  The file is the text that \<open>open(filename, 'r')\<close> delivers. \<open>readline\<close> returns
  the text up to and with the next newline, and the empty string at the end of the
  file; \<open>strip\<close> and \<open>split\<close> cut at the characters for which \<open>str.isspace\<close>
  holds.
\<close>

definition readline :: "pystr \<Rightarrow> pystr \<times> pystr" where
  "readline content =
     (case dropWhile (\<lambda>c. c \<noteq> 10) content of
        [] \<Rightarrow> (content, [])
      | newline # rest \<Rightarrow> (takeWhile (\<lambda>c. c \<noteq> 10) content @ [newline], rest))"

definition isspace :: "nat \<Rightarrow> bool" where
  "isspace c =
     ((9 \<le> c \<and> c \<le> 13) \<or> (28 \<le> c \<and> c \<le> 32) \<or> c = 133 \<or> c = 160 \<or> c = 5760
      \<or> (8192 \<le> c \<and> c \<le> 8202) \<or> c = 8232 \<or> c = 8233 \<or> c = 8239 \<or> c = 8287
      \<or> c = 12288)"

definition strip :: "pystr \<Rightarrow> pystr" where
  "strip s = rev (dropWhile isspace (rev (dropWhile isspace s)))"

fun split_from :: "pystr \<Rightarrow> pystr \<Rightarrow> pystr list" where
  "split_from word [] = (if word = [] then [] else [word])"
| "split_from word (c # cs) =
     (if isspace c then (if word = [] then split_from [] cs else word # split_from [] cs)
      else split_from (word @ [c]) cs)"

definition split :: "pystr \<Rightarrow> pystr list" where
  "split s = split_from [] s"

text \<open>
  \<open>str.isnumeric\<close> and \<open>int\<close> read the Unicode tables of the Python runtime,
  which are no part of the program: the model takes the two functions as parameters.
  \<open>int_of_str\<close> is \<open>None\<close> where \<open>int\<close> raises ValueError. \<open>ascii_builtins\<close>
  are the two functions on text whose only numeric characters are the ASCII digits.
\<close>

record builtins =
  isnumeric :: "pystr \<Rightarrow> bool"
  int_of_str :: "pystr \<Rightarrow> int option"

definition ascii_digit :: "nat \<Rightarrow> bool" where
  "ascii_digit c = (48 \<le> c \<and> c \<le> 57)"

definition ascii_builtins :: builtins where
  "ascii_builtins =
     \<lparr>isnumeric = (\<lambda>s. s \<noteq> [] \<and> list_all ascii_digit s),
      int_of_str = (\<lambda>s. if s \<noteq> [] \<and> list_all ascii_digit s
                          then Some (foldl (\<lambda>n c. 10 * n + (int c - 48)) 0 s) else None)\<rparr>"

definition validate_state :: "builtins \<Rightarrow> int \<Rightarrow> pystr \<Rightarrow> error + bool" where
  "validate_state B number_of_states state =
     (if state = [] \<or> \<not> isnumeric B state then Inr False
      else (case int_of_str B state of
              None \<Rightarrow> Inl ValueError
            | Some n \<Rightarrow> Inr (1 \<le> n \<and> n \<le> number_of_states)))"

definition validate_transition ::
  "builtins \<Rightarrow> int \<Rightarrow> pystr list \<Rightarrow> pystr \<Rightarrow> pystr \<Rightarrow> pystr \<Rightarrow> error + bool" where
  "validate_transition B number_of_states alphabet state_i state_o char =
     (case validate_state B number_of_states state_i of
        Inl e \<Rightarrow> Inl e
      | Inr valid_i \<Rightarrow>
          if \<not> valid_i then Inr False
          else (case validate_state B number_of_states state_o of
                  Inl e \<Rightarrow> Inl e
                | Inr valid_o \<Rightarrow> Inr (valid_o \<and> char \<in> set alphabet)))"

text \<open>
  \<open>_validate_accept_states\<close> stores the accept states it has validated; the result
  is the stored states, or \<open>None\<close> where the method returns False.
\<close>

fun validate_accept_states ::
  "builtins \<Rightarrow> int \<Rightarrow> pystr list \<Rightarrow> pystr list \<Rightarrow> error + pystr list option" where
  "validate_accept_states B number_of_states stored [] = Inr (Some stored)"
| "validate_accept_states B number_of_states stored (state # rest) =
     (case validate_state B number_of_states state of
        Inl e \<Rightarrow> Inl e
      | Inr valid \<Rightarrow>
          if \<not> valid then Inr None
          else validate_accept_states B number_of_states (keys_add stored state) rest)"

definition store_transition ::
  "(pystr \<times> (pystr \<times> pystr) list) list \<Rightarrow> pystr \<Rightarrow> pystr \<Rightarrow> pystr
     \<Rightarrow> (pystr \<times> (pystr \<times> pystr) list) list" where
  "store_transition tf state_from state_to transition_char =
     (case map_of tf state_from of
        None \<Rightarrow> dict_set tf state_from [(transition_char, state_to)]
      | Some entry \<Rightarrow> dict_set tf state_from (dict_set entry transition_char state_to))"

text \<open>The removal of every quote: \<open>character.replace('\'', '')\<close>.\<close>

definition strip_quotes :: "pystr \<Rightarrow> pystr" where
  "strip_quotes character = filter (\<lambda>c. c \<noteq> 39) character"

lemma length_readline: "length (snd (readline content)) \<le> length content"
  using length_dropWhile_le [of "\<lambda>c. c \<noteq> 10" content]
  by (auto simp: readline_def split: list.split)

lemma readline_shorter: "content \<noteq> [] \<Longrightarrow> length (snd (readline content)) < length content"
  using length_dropWhile_le [of "\<lambda>c. c \<noteq> 10" content]
  by (auto simp: readline_def split: list.split)

lemma readline_empty: "readline [] = ([], [])"
  by (simp add: readline_def)

lemma split_strip_empty: "split (strip []) = []"
  by (simp add: split_def strip_def)

lemma read_step_measure:
  "2 * length (snd (readline content))
     + (if length (split (strip (fst (readline content)))) = 3 then 1 else 0)
   < 2 * length content + 1"
proof (cases "content = []")
  case True
  then show ?thesis by (simp add: readline_empty split_strip_empty)
next
  case False
  then have "length (snd (readline content)) < length content"
    by (rule readline_shorter)
  then show ?thesis by auto
qed

text \<open>
  The loop over the transition lines: it is entered with the words of a line, and
  left with the words of the first line that has not three words, and the rest of the
  content.
\<close>

function read_transitions ::
  "builtins \<Rightarrow> int \<Rightarrow> pystr list \<Rightarrow> (pystr \<times> (pystr \<times> pystr) list) list \<Rightarrow> pystr list \<Rightarrow> pystr
     \<Rightarrow> error + (pystr \<times> (pystr \<times> pystr) list) list \<times> pystr list \<times> pystr" where
  "read_transitions B number_of_states alphabet tf transition_data content =
     (if length transition_data = 3 then
        (let source_state = transition_data ! 0;
             quote_stripped_char = strip_quotes (transition_data ! 1);
             dest_state = transition_data ! 2
         in case validate_transition B number_of_states alphabet source_state dest_state
                   quote_stripped_char of
              Inl e \<Rightarrow> Inl e
            | Inr valid \<Rightarrow>
                if \<not> valid then Inl FileFormatError
                else read_transitions B number_of_states alphabet
                       (store_transition tf source_state dest_state quote_stripped_char)
                       (split (strip (fst (readline content)))) (snd (readline content)))
      else Inr (tf, transition_data, content))"
  by pat_completeness auto

termination
proof (relation "measure (\<lambda>(B, n, al, tf, td, content).
          2 * length content + (if length td = 3 then 1 else 0))", goal_cases)
  case 1
  show ?case by simp
next
  case 2
  then show ?case using read_step_measure by simp
qed

declare read_transitions.simps [simp del]

text \<open>\<open>_read_dfa_data_from_file\<close>, from the text of the content to the DFA.\<close>

definition read_dfa_data_from_file :: "builtins \<Rightarrow> pystr \<Rightarrow> error + pystr DFA" where
  "read_dfa_data_from_file B content =
     (let num_of_states = strip (fst (readline content)); content1 = snd (readline content)
      in if \<not> isnumeric B num_of_states \<or> num_of_states = [] then Inl FileFormatError
         else (case int_of_str B num_of_states of
                 None \<Rightarrow> Inl ValueError
               | Some number_of_states \<Rightarrow>
                   (let alphabet = map (\<lambda>ch. [ch]) (strip (fst (readline content1)));
                        content2 = snd (readline content1);
                        transition_data = split (strip (fst (readline content2)));
                        content3 = snd (readline content2)
                    in case read_transitions B number_of_states alphabet []
                              transition_data content3 of
                         Inl e \<Rightarrow> Inl e
                       | Inr (tf, last_data, content4) \<Rightarrow>
                           (case last_data of
                              [] \<Rightarrow> Inl IndexError
                            | start_text # ws \<Rightarrow>
                                (case validate_state B number_of_states start_text of
                                   Inl e \<Rightarrow> Inl e
                                 | Inr valid \<Rightarrow>
                                     if \<not> valid then Inl FileFormatError
                                     else
                                       (case validate_accept_states B number_of_states []
                                               (split (strip (fst (readline content4)))) of
                                          Inl e \<Rightarrow> Inl e
                                        | Inr None \<Rightarrow> Inl FileFormatError
                                        | Inr (Some accept) \<Rightarrow>
                                            if fst (readline (snd (readline content4))) \<noteq> []
                                            then Inl FileFormatError
                                            else Inr \<lparr>dfa_alphabet = alphabet,
                                                      dfa_number_of_states = number_of_states,
                                                      dfa_transition_function = tf,
                                                      dfa_start_state = start_text,
                                                      dfa_accept_states = accept\<rparr>))))))"

text \<open>
  The transition records of a description file: the word lists of the lines that the
  loop of \<open>_read_dfa_data_from_file\<close> goes through, from the third line of the file
  to the first line that has not three words.
\<close>

function transition_lines :: "pystr list \<Rightarrow> pystr \<Rightarrow> pystr list list" where
  "transition_lines transition_data content =
     (if length transition_data = 3
      then transition_data
             # transition_lines (split (strip (fst (readline content)))) (snd (readline content))
      else [])"
  by pat_completeness auto

termination
proof (relation "measure (\<lambda>(td, content).
          2 * length content + (if length td = 3 then 1 else 0))", goal_cases)
  case 1
  show ?case by simp
next
  case 2
  then show ?case using read_step_measure by simp
qed

declare transition_lines.simps [simp del]

definition dfa_file_records :: "pystr \<Rightarrow> pystr list list" where
  "dfa_file_records content =
     (let content1 = snd (readline content); content2 = snd (readline content1)
      in transition_lines (split (strip (fst (readline content2)))) (snd (readline content2)))"

section \<open>lexer.py: the lexical analyzer\<close>

record TokenValue =
  tv_dfa :: "int DFA"
  tv_type :: pystr
  tv_order :: int

text \<open>
  The lexer: the DFAs of the token types, in the order of the dictionary, and the
  text of the source file that is left.
\<close>

record Lex =
  lex_alphabet :: "pystr list"
  generated_dfas :: "(pystr \<times> TokenValue) list"
  source_file_data :: pystr

text \<open>
  The constructor reads the specification of the token types and the source file.
  \<open>_pre_process_regex\<close> builds the DFA of a token type with the class \<open>RegEx\<close> of
  the module \<open>regex\<close> of pa4 and the method \<open>to_DFA\<close> of its NFA. That module is not
  among the sources (the \<open>RegEx\<close> of pa3 is built from a file name), so the model
  takes the construction as a parameter: \<open>regex_to_dfa\<close> maps the alphabet and the
  expression to the DFA, or to the exception that the construction raises.
\<close>

type_synonym regex_dfa = "pystr list \<Rightarrow> pystr \<Rightarrow> error + int DFA"

text \<open>The slice \<open>s[1:-1]\<close>, which removes the quotes around a text.\<close>

definition slice_inner :: "pystr \<Rightarrow> pystr" where
  "slice_inner s = butlast (tl s)"

text \<open>
  \<open>_pre_process_regex\<close>, on the dictionary \<open>generated_dfas\<close>: the token value of
  the type is stored under the type, in place of an earlier token value of that type.
\<close>

definition pre_process_regex ::
  "regex_dfa \<Rightarrow> pystr list \<Rightarrow> (pystr \<times> TokenValue) list \<Rightarrow> pystr \<Rightarrow> pystr \<Rightarrow> int
     \<Rightarrow> error + (pystr \<times> TokenValue) list" where
  "pre_process_regex regex_to_dfa alphabet dfas token_type regex_str last_num_token =
     (case regex_to_dfa alphabet regex_str of
        Inl e \<Rightarrow> Inl e
      | Inr reg_dfa \<Rightarrow>
          Inr (dict_set dfas token_type
                 \<lparr>tv_dfa = reg_dfa, tv_type = token_type, tv_order = last_num_token\<rparr>))"

text \<open>
  The loop of \<open>_initialize_from_file\<close> over the lines of the token types. The
  assignment \<open>token_type, token_string = next_line.split()\<close> raises ValueError when
  the line has not two words. The result is the exception that ends the loop, if any,
  and the dictionary as the loop leaves it.
\<close>

lemma token_step_measure:
  "2 * length (snd (readline content)) + (if strip (fst (readline content)) = [] then 0 else 1)
   < 2 * length content + 1"
proof (cases "content = []")
  case True
  then show ?thesis by (simp add: readline_empty strip_def)
next
  case False
  then have "length (snd (readline content)) < length content"
    by (rule readline_shorter)
  then show ?thesis by auto
qed

function read_token_lines ::
  "regex_dfa \<Rightarrow> pystr list \<Rightarrow> (pystr \<times> TokenValue) list \<Rightarrow> pystr \<Rightarrow> int \<Rightarrow> pystr
     \<Rightarrow> error option \<times> (pystr \<times> TokenValue) list" where
  "read_token_lines regex_to_dfa alphabet dfas next_line last_num_token content =
     (if next_line = [] then (None, dfas)
      else if length (split next_line) \<noteq> 2 then (Some ValueError, dfas)
      else (let token_type = split next_line ! 0;
                token_string = slice_inner (split next_line ! 1)
            in case pre_process_regex regex_to_dfa alphabet dfas token_type token_string
                      last_num_token of
                 Inl e \<Rightarrow> (Some e, dfas)
               | Inr dfas' \<Rightarrow>
                   read_token_lines regex_to_dfa alphabet dfas' (strip (fst (readline content)))
                     (last_num_token + 1) (snd (readline content))))"
  by pat_completeness auto

termination
proof (relation "measure (\<lambda>(mk, al, dfas, next_line, n, content).
          2 * length content + (if next_line = [] then 0 else 1))", goal_cases)
  case 1
  show ?case by simp
next
  case 2
  then show ?case using token_step_measure by simp
qed

declare read_token_lines.simps [simp del]

text \<open>
  \<open>_initialize_from_file\<close>, \<open>_read_source_file\<close> and the constructor, on the texts
  of the two files. The constructor prints an exception of \<open>_initialize_from_file\<close>
  and goes on with the lexer as the exception leaves it, its source text empty.
\<close>

definition initialize_from_file :: "regex_dfa \<Rightarrow> pystr \<Rightarrow> Lex \<Rightarrow> error option \<times> Lex" where
  "initialize_from_file regex_to_dfa content L =
     (let alphabet_line = strip (fst (readline content)); content1 = snd (readline content);
          alphabet_string = slice_inner alphabet_line;
          alphabet = map (\<lambda>ch. [ch]) alphabet_string;
          next_line = strip (fst (readline content1)); content2 = snd (readline content1);
          r = read_token_lines regex_to_dfa alphabet (generated_dfas L) next_line 0 content2
      in (fst r, L\<lparr>lex_alphabet := alphabet, generated_dfas := snd r\<rparr>))"

definition read_source_file :: "pystr \<Rightarrow> pystr" where
  "read_source_file content = map (\<lambda>c. if c = 10 then 32 else c) content"

definition Lex_init :: "regex_dfa \<Rightarrow> pystr \<Rightarrow> pystr \<Rightarrow> Lex" where
  "Lex_init regex_to_dfa regex_file source_file =
     (let L = \<lparr>lex_alphabet = [], generated_dfas = [], source_file_data = []\<rparr>;
          r = initialize_from_file regex_to_dfa regex_file L
      in case fst r of
           Some e \<Rightarrow> snd r
         | None \<Rightarrow> (snd r)\<lparr>source_file_data := read_source_file source_file\<rparr>)"

text \<open>
  The lines of the token types of a specification: the stripped lines that the loop of
  \<open>_initialize_from_file\<close> goes through, from the second line of the file to the
  first line that is empty once stripped.
\<close>

function token_lines :: "pystr \<Rightarrow> pystr \<Rightarrow> pystr list" where
  "token_lines next_line content =
     (if next_line = [] then []
      else next_line # token_lines (strip (fst (readline content))) (snd (readline content)))"
  by pat_completeness auto

termination
proof (relation "measure (\<lambda>(next_line, content).
          2 * length content + (if next_line = [] then 0 else 1))", goal_cases)
  case 1
  show ?case by simp
next
  case 2
  then show ?case using token_step_measure by simp
qed

declare token_lines.simps [simp del]

definition lex_token_lines :: "pystr \<Rightarrow> pystr list" where
  "lex_token_lines content =
     (let content1 = snd (readline content)
      in token_lines (strip (fst (readline content1))) (snd (readline content1)))"

definition decider_step :: "TokenValue option \<times> int \<Rightarrow> TokenValue \<Rightarrow> TokenValue option \<times> int" where
  "decider_step acc token =
     (if tv_order token < snd acc then (Some token, tv_order token) else acc)"

definition multiple_token_decider :: "TokenValue list \<Rightarrow> TokenValue option" where
  "multiple_token_decider tokens = fst (foldl decider_step (None, 10000000) tokens)"

text \<open>
  The loop of \<open>_analyze_input\<close> over the characters of the input, for one DFA:
  \<open>i\<close> is the index of the first character of the rest of the input, and the last
  argument holds \<open>longest_match_str_len\<close> and \<open>reached_accept_state\<close>.
\<close>

fun scan_input :: "int DFA \<Rightarrow> nat \<Rightarrow> pystr \<Rightarrow> int \<Rightarrow> nat \<times> bool \<Rightarrow> error + nat \<times> bool" where
  "scan_input dfa i [] curr_state found = Inr found"
| "scan_input dfa i (curr_char # rest) curr_state found =
     (if curr_char = 32 then
        (if snd found then Inr found else scan_input dfa (i + 1) rest curr_state found)
      else (case transition dfa curr_state [curr_char] of
              Inl e \<Rightarrow> Inl e
            | Inr next_state \<Rightarrow>
                if next_state = 1 then Inr found
                else scan_input dfa (i + 1) rest next_state
                       (if next_state \<in> set (dfa_accept_states dfa) then (i + 1, True)
                        else found)))"

text \<open>
  One round of the loop over the DFAs: the scan of the input by the DFA of the token
  value, from its start state, and the update of \<open>accepting_token_values\<close> and
  \<open>final_longest_match_str_len\<close>.
\<close>

definition scan_token :: "pystr \<Rightarrow> TokenValue \<Rightarrow> error + nat \<times> bool" where
  "scan_token input token_value =
     (let dfa = tv_dfa token_value
      in scan_input dfa 0 input (dfa_start_state dfa) (0, False))"

definition analyze_dfa ::
  "pystr \<Rightarrow> TokenValue list \<times> nat \<Rightarrow> pystr \<times> TokenValue \<Rightarrow> error + TokenValue list \<times> nat" where
  "analyze_dfa input acc item =
     (let token_value = snd item
      in case scan_token input token_value of
           Inl e \<Rightarrow> Inl e
         | Inr found \<Rightarrow>
             Inr (if snd found then
                    (if fst found > snd acc then ([token_value], fst found)
                     else if fst found = snd acc then (fst acc @ [token_value], fst found)
                     else acc)
                  else acc))"

definition analyze_input :: "Lex \<Rightarrow> pystr \<Rightarrow> error + TokenValue option \<times> pystr \<times> nat" where
  "analyze_input L input =
     (case fold_err (analyze_dfa input) ([], 0) (generated_dfas L) of
        Inl e \<Rightarrow> Inl e
      | Inr (accepting_token_values, final_longest_match_str_len) \<Rightarrow>
          Inr (case accepting_token_values of
                 [token_value] \<Rightarrow> Some token_value
               | _ \<Rightarrow> multiple_token_decider accepting_token_values,
               take final_longest_match_str_len input,
               final_longest_match_str_len))"

text \<open>
  \<open>next_token\<close> returns its result, or the exception it raises, and the lexer as
  the call leaves it.
\<close>

definition next_token :: "Lex \<Rightarrow> (error + pystr \<times> pystr) \<times> Lex" where
  "next_token L =
     (if source_file_data L = [] then (Inl EOFError, L)
      else (case analyze_input L (source_file_data L) of
              Inl e \<Rightarrow> (Inl e, L)
            | Inr (result_token, matched_str, str_len) \<Rightarrow>
                (let data = drop str_len (source_file_data L);
                     check_str = filter (\<lambda>c. c \<noteq> 32) data;
                     L' = L\<lparr>source_file_data := (if check_str = [] then check_str else data)\<rparr>
                 in case result_token of
                      Some token_value \<Rightarrow>
                        (Inr (tv_type token_value, filter (\<lambda>c. c \<noteq> 32) matched_str), L')
                    | None \<Rightarrow> (Inl InvalidToken, L'))))"

text \<open>
  What the loop of \<open>_initialize_from_file\<close> keeps, for the lines it has gone through:
  the dictionary has one token value for every type of these lines, and the token
  value of a type has that type, the DFA of the expression and as its order the index
  of the last of the lines of the type.
\<close>

definition orders_inv ::
  "regex_dfa \<Rightarrow> pystr list \<Rightarrow> pystr list \<Rightarrow> (pystr \<times> TokenValue) list \<Rightarrow> bool" where
  "orders_inv regex_to_dfa alphabet lines dfas \<longleftrightarrow>
     distinct (map fst dfas)
   \<and> (\<forall>item\<in>set dfas. \<exists>i<length lines.
         tv_order (snd item) = int i \<and> tv_type (snd item) = fst item
       \<and> split (lines ! i) ! 0 = fst item
       \<and> regex_to_dfa alphabet (slice_inner (split (lines ! i) ! 1)) = Inr (tv_dfa (snd item))
       \<and> (\<forall>j<length lines. i < j \<longrightarrow> split (lines ! j) ! 0 \<noteq> fst item))
   \<and> (\<forall>i<length lines. split (lines ! i) ! 0 \<in> fst ` set dfas)"

section \<open>The automaton that the subset construction builds\<close>

text \<open>
  The notions in which the result of \<open>to_DFA\<close> is described. \<open>subset_start\<close> is the
  epsilon closure of the start state, the set that \<open>_nfa_conversion\<close> starts from;
  \<open>subset_states\<close> are the sets of NFA states that its loop handles, in the order in
  which it handles them; \<open>reject_reached\<close> is the value of \<open>found_empty\<close> when the
  loop ends, and \<open>construction_id\<close> the id that a set has in
  \<open>dfa_state_int_mapping\<close> at that moment.
\<close>

definition subset_start :: "'q NFA \<Rightarrow> 'q list" where
  "subset_start N = get_epsilon_closure N (nfa_start_state N)"

definition subset_states :: "'q NFA \<Rightarrow> 'q list list" where
  "subset_states N = states_handled (explore N (subset_start N))"

definition reject_reached :: "'q NFA \<Rightarrow> bool" where
  "reject_reached N = found_empty (explore N (subset_start N))"

definition construction_id :: "'q NFA \<Rightarrow> 'q list \<Rightarrow> int option" where
  "construction_id N S = fs_lookup (dfa_state_int_mapping (explore N (subset_start N))) S"

text \<open>
  The id in the finished DFA of the set that the loop handles as number \<open>i\<close>, counted
  from 0: one more than \<open>i\<close>, and one more again when state 1 stays in the DFA.
\<close>

definition state_offset :: "'q NFA \<Rightarrow> int" where
  "state_offset N = (if reject_reached N then 1 else 0)"

definition state_id :: "'q NFA \<Rightarrow> nat \<Rightarrow> int" where
  "state_id N i = int i + 1 + state_offset N"

text \<open>
  The transitions of a set as the loop stores them, a frozenset for every symbol of the
  alphabet, and as \<open>_finalize_dfa\<close> leaves them, the id of that frozenset in a
  mapping.
\<close>

definition row :: "'q NFA \<Rightarrow> 'q list \<Rightarrow> (pystr \<times> 'q cell) list" where
  "row N S = map (\<lambda>a. (a, FrozenSet (dest_states N S a))) (nfa_alphabet N)"

definition crow :: "('q list \<times> int) list \<Rightarrow> 'q NFA \<Rightarrow> 'q list \<Rightarrow> (pystr \<times> 'q cell) list" where
  "crow m N S = map (\<lambda>a. (a, IntState (the (fs_lookup m (dest_states N S a))))) (nfa_alphabet N)"

text \<open>
  A table given by the list of its keys, each with the function from the symbols to the
  destination ids: as a table of cells, and as the table of a DFA.
\<close>

definition cells :: "(pystr \<Rightarrow> int) \<Rightarrow> pystr list \<Rightarrow> (pystr \<times> 'q cell) list" where
  "cells g as = map (\<lambda>a. (a, IntState (g a))) as"

definition cell_table ::
  "pystr list \<Rightarrow> (int \<times> (pystr \<Rightarrow> int)) list \<Rightarrow> (int \<times> (pystr \<times> 'q cell) list) list" where
  "cell_table as kgs = map (\<lambda>kg. (fst kg, cells (snd kg) as)) kgs"

definition int_table ::
  "pystr list \<Rightarrow> (int \<times> (pystr \<Rightarrow> int)) list \<Rightarrow> (int \<times> (pystr \<times> int) list) list" where
  "int_table as kgs = map (\<lambda>kg. (fst kg, map (\<lambda>a. (a, snd kg a)) as)) kgs"

text \<open>
  The DFA that \<open>to_DFA\<close> returns, written out from the sets that the loop handles:
  the rows of these sets in their order, then the row of state 1 when it stays.
\<close>

definition target_id :: "'q NFA \<Rightarrow> 'q list \<Rightarrow> int" where
  "target_id N T =
     the (fs_lookup (dfa_state_int_mapping (explore N (subset_start N))) T) + state_offset N - 1"

definition built_rows :: "'q NFA \<Rightarrow> (int \<times> (pystr \<Rightarrow> int)) list" where
  "built_rows N =
     map (\<lambda>(i, S). (int i + 1 + state_offset N, \<lambda>a. target_id N (dest_states N S a)))
       (enumerate 0 (subset_states N))
     @ (if reject_reached N then [(1, \<lambda>a. 1)] else [])"

definition built_dfa :: "'q NFA \<Rightarrow> 'q list \<Rightarrow> int DFA" where
  "built_dfa N acc =
     \<lparr>dfa_alphabet = nfa_alphabet N,
      dfa_number_of_states = int (length (subset_states N)) + state_offset N,
      dfa_transition_function = int_table (nfa_alphabet N) (built_rows N),
      dfa_start_state = 1 + state_offset N,
      dfa_accept_states =
        map (\<lambda>(i, S). int i + 1 + state_offset N)
          (filter (\<lambda>(i, S). list_ex (\<lambda>q. q \<in> set acc) S) (enumerate 0 (subset_states N)))\<rparr>"

text \<open>
  The invariant of the loop of \<open>_nfa_conversion\<close> on an alphabet without repeated
  symbols: the sets handled are non-empty and pairwise different, the set number \<open>i\<close>
  has the id \<open>i + 2\<close> in both mappings and its row in the table, every non-empty
  destination of a handled set is handled or in the queue, and \<open>found_empty\<close> tells
  whether a destination of a handled set is empty.
\<close>

definition conv_inv :: "'q NFA \<Rightarrow> 'q list \<Rightarrow> 'q list list \<Rightarrow> 'q conversion \<Rightarrow> bool" where
  "conv_inv N start queue c \<longleftrightarrow>
     distinct (map set (states_handled c)) \<and> [] \<notin> set (states_handled c) \<and> [] \<notin> set queue
   \<and> (states_handled c = [] \<longrightarrow> queue = [start])
   \<and> (states_handled c \<noteq> [] \<longrightarrow> hd (states_handled c) = start)
   \<and> start \<noteq> []
   \<and> next_state_id c = int (length (states_handled c)) + 2
   \<and> conv_number_of_states c = int (length (states_handled c)) + 1
   \<and> conv_start_state c = 2
   \<and> conv_transition_function c
       = map (\<lambda>(i, S). (int i + 2, row N S)) (enumerate 0 (states_handled c))
   \<and> fs_lookup (dfa_state_int_mapping c) [] = Some 1
   \<and> fs_lookup (dfa_state_int_mapping c) start = Some 2
   \<and> (\<forall>(i, S)\<in>set (enumerate 0 (states_handled c)).
         fs_lookup (dfa_state_int_mapping c) S = Some (int i + 2))
   \<and> (\<forall>T v. fs_lookup (dfa_state_int_mapping c) T = Some v \<longrightarrow>
         T = [] \<or> same_set start T \<or> (\<exists>S\<in>set (states_handled c). same_set S T))
   \<and> map_of (dfa_state_int_mapping_reverse c) 1 = Some []
   \<and> map_of (dfa_state_int_mapping_reverse c) 2 = Some start
   \<and> (\<forall>(i, S)\<in>set (enumerate 0 (states_handled c)).
         map_of (dfa_state_int_mapping_reverse c) (int i + 2) = Some S)
   \<and> (\<forall>S\<in>set (states_handled c). \<forall>a\<in>set (nfa_alphabet N).
         dest_states N S a \<noteq> [] \<longrightarrow>
         (\<exists>S'\<in>set (states_handled c) \<union> set queue. same_set S' (dest_states N S a)))
   \<and> (found_empty c \<longleftrightarrow>
         (\<exists>S\<in>set (states_handled c). \<exists>a\<in>set (nfa_alphabet N). dest_states N S a = []))"

text \<open>
  What the loop keeps on every alphabet: the first key of the table is 2, the id of the
  start set.
\<close>

definition head_inv :: "'q list \<Rightarrow> 'q list list \<Rightarrow> 'q conversion \<Rightarrow> bool" where
  "head_inv start queue c \<longleftrightarrow>
     map_of (dfa_state_int_mapping_reverse c) 2 = Some start \<and>
     (if conv_transition_function c = []
      then queue \<noteq> [] \<and> hd queue = start \<and> states_handled c = []
           \<and> fs_lookup (dfa_state_int_mapping c) start = Some 2 \<and> 2 \<le> next_state_id c
      else fst (hd (conv_transition_function c)) = 2 \<and> 3 \<le> next_state_id c)"

section \<open>Facts about dictionaries\<close>

lemma map_of_dict_set: "map_of (dict_set d k v) = (map_of d)(k \<mapsto> v)"
  by (induction d) (auto simp: fun_eq_iff)

lemma map_of_foldl_dict_set_const:
  "map_of (foldl (\<lambda>t s. dict_set t s v) d ks) k =
     (if k \<in> set ks then Some v else map_of d k)"
  by (induction ks arbitrary: d) (auto simp: map_of_dict_set)

section \<open>The Kleene star construction\<close>

text \<open>
  Claim C10. In the automaton that \<open>kleene_star_to_nfa\<close> builds from \<open>X\<close>, the
  transition entry of every accept state of \<open>X\<close> is exactly the one epsilon edge to
  the start state of \<open>X\<close>: whatever \<open>X\<close> recorded out of that state is replaced, not
  merged.
\<close>

theorem kleene_star_replaces_accept_entries:
  "s \<in> set (accept_states X) \<Longrightarrow>
     map_of (transition_function (kleene_star_to_nfa X)) s
       = Some [(py ''e'', [start_state X])]"
  by (simp add: kleene_star_to_nfa_def Let_def map_of_foldl_dict_set_const)

theorem kleene_star_replaces_accept_entries_witness:
  "(3::int) \<in> set (accept_states
       \<lparr>transition_function =
          [(1, [(py ''a'', [2])]), (3, [(py ''e'', [1])]), (2, [(py ''e'', [1])])],
        accept_states = [2, 3], start_state = 3, last_state = 3\<rparr>)
   \<and> map_of (transition_function (kleene_star_to_nfa
       \<lparr>transition_function =
          [(1, [(py ''a'', [2])]), (3, [(py ''e'', [1])]), (2, [(py ''e'', [1])])],
        accept_states = [2, 3], start_state = 3, last_state = 3\<rparr>)) 3
     = Some [(py ''e'', [3])]"
  using kleene_star_replaces_accept_entries [of 3
       "\<lparr>transition_function =
          [(1, [(py ''a'', [2])]), (3, [(py ''e'', [1])]), (2, [(py ''e'', [1])])],
        accept_states = [2, 3], start_state = 3, last_state = 3\<rparr>"]
  by simp

section \<open>Running the model\<close>

text \<open>The equations that unfold the model on a concrete input.\<close>

lemma pop_operands_numeral:
  "pop_operands (numeral k) operand_stack child_nodes =
     (case operand_stack of
        [] \<Rightarrow> Inl IndexError
      | operand # rest \<Rightarrow> pop_operands (pred_numeral k) rest (operand # child_nodes))"
  by (simp add: numeral_eq_Suc split: list.split)

lemmas nfa_eval = to_DFA_def get_epsilon_closure_def nfa_conversion_def explore_def
  initial_conversion_def
  finalize_dfa_def finalize_state_def accept_check_def convert_symbol_def
  generate_int_mapping_def generate_int_mapping_reverse_def reject_loop_def
  scan_alphabet_def scan_symbol_def record_state_def dest_states_def
  get_transition_for_states_set_def get_epsilon_closure_for_states_set_def
  get_transition_def epsilon_new_def keys_add_def keys_update_def same_set_def
  fs_delete_def dict_delete_def shift_value_def generate_shifted_transition_value_def
  shift_entry_def generate_shifted_keys_dict_def generate_shifted_keys_def
  read_value_def read_entry_def Let_def

lemmas regex_eval = RegEx_run_def RegEx_init_def RegEx_simulate_def build_nfa_def
  parse_regex_def tokenize_def alphabet_class_def backslash_def literal_token_def
  concat_follows_def parse_token_def reduce_operator_def operator_operand_mapping_def
  prescedence_mapping_def check_operator_prescedence_def concat_token_def
  tree_concat_literal_def to_nfa_def depth_first_def finalize_simple_nfa_def
  base_node_to_nfa_def union_to_nfa_def concat_to_nfa_def concat_link_def
  kleene_star_to_nfa_def epsilon_node_to_nfa_def empty_set_to_nfa_def dict_update_def
  simulate_def transition_def table_get_def py_def pop_operands_numeral Let_def

lemmas lexer_eval = next_token_def analyze_input_def analyze_dfa_def scan_token_def
  multiple_token_decider_def decider_step_def transition_def table_get_def py_def Let_def

lemmas file_eval = read_dfa_data_from_file_def readline_def strip_def split_def isspace_def
  ascii_builtins_def ascii_digit_def validate_state_def validate_transition_def
  store_transition_def strip_quotes_def read_transitions.simps keys_add_def py_def Let_def

section \<open>The language of a regular expression\<close>

text \<open>
  The concatenation of two symbols. The parser builds the node of the concatenation
  with the token U+2218 as its value; \<open>depth_first_recursive\<close> compares the value
  with another literal, finds neither a union nor a concatenation, and builds the
  automaton of a single symbol U+2218 instead.
\<close>

lemma concatenation_node_of_ab:
  "build_nfa [py ''a'', py ''b''] (py ''ab'')
     = Inr \<lparr>nfa_alphabet = [py ''a'', py ''b''], nfa_number_of_states = 2,
            nfa_transition_function = [(1, [(concat_token, [2])])],
            nfa_start_state = 1, nfa_accept_states = Some [2]\<rparr>"
  by (simp add: regex_eval)

text \<open>
  Claim C1 says that \<open>simulate\<close> accepts a string exactly when it is in the language
  of the regular expression, and that the expression \<open>ab\<close> accepts the string
  \<open>ab\<close>. On the alphabet \<open>ab\<close> the expression \<open>ab\<close> is built without an error
  and \<open>simulate\<close> returns False on the string \<open>ab\<close>.
\<close>

theorem regex_ab_rejects_ab:
  "RegEx_run (py ''ab'') (py ''ab'') (py ''ab'') = Inr False"
  by (simp add: regex_eval nfa_eval)

text \<open>
  The star of a star: the inner star's accept states lose their edge back to the inner
  start state (see \<open>kleene_star_replaces_accept_entries\<close>), and \<open>(a*)*\<close> rejects
  \<open>a\<close>.
\<close>

lemma regex_star_star_rejects_a:
  "RegEx_run (py ''ab'') (py ''(a*)*'') (py ''a'') = Inr False"
  by (simp add: regex_eval nfa_eval)

section \<open>Expressions that the parser cannot resolve\<close>

text \<open>
  Claim C4 says that an expression whose stacks cannot be resolved always fails with
  InvalidExpression. The expression \<open>(|)\<close> has an operator without operands inside
  the parentheses: the branch of \<open>)\<close> pops the operand stack without the test on its
  length that the other two reductions make, and the constructor is left with
  IndexError. The expression \<open>a)\<close> has a \<open>)\<close> without a \<open>(\<close>: the branch of
  \<open>)\<close> does nothing on an empty operator stack, and the expression is built as
  \<open>a\<close>, valid.
\<close>

theorem unresolved_expressions_without_InvalidExpression:
  "RegEx_init (py ''ab'') (py ''(|)'') = Inl IndexError
   \<and> RegEx_init (py ''ab'') (py ''a)'')
       = Inr \<lparr>regex_alphabet = [py ''a'', py ''b''], regex_string = py ''a)'',
              invalid = False,
              regex_nfa = Some \<lparr>nfa_alphabet = [py ''a'', py ''b''], nfa_number_of_states = 2,
                nfa_transition_function = [(1, [(py ''a'', [2])])],
                nfa_start_state = 1, nfa_accept_states = Some [2]\<rparr>\<rparr>"
  by (simp add: regex_eval)

section \<open>The end of the input\<close>

text \<open>
  The DFA of the expression \<open>a\<close> on the alphabet \<open>a\<close>, which the lexer examples
  below use for their one token type.
\<close>

lemma dfa_of_a:
  "(case build_nfa [py ''a''] (py ''a'') of Inl e \<Rightarrow> Inl e | Inr nfa \<Rightarrow> to_DFA nfa)
     = Inr \<lparr>dfa_alphabet = [py ''a''], dfa_number_of_states = 3,
            dfa_transition_function =
              [(2, [(py ''a'', 3)]), (3, [(py ''a'', 1)]), (1, [(py ''a'', 1)])],
            dfa_start_state = 2, dfa_accept_states = [3]\<rparr>"
  by (simp add: regex_eval nfa_eval)

text \<open>
  Claim C2 says that \<open>next_token\<close> signals the end of the input whenever the input
  left is empty once the separators are trimmed. A lexer whose source text is one
  space (a source file of one newline) has not been through the normalisation that
  follows a token: the first call raises InvalidToken, and empties the text.
\<close>

theorem next_token_on_separators_only:
  "next_token
       \<lparr>lex_alphabet = [py ''a''],
        generated_dfas =
          [(py ''A'',
            \<lparr>tv_dfa =
               \<lparr>dfa_alphabet = [py ''a''], dfa_number_of_states = 3,
                dfa_transition_function =
                  [(2, [(py ''a'', 3)]), (3, [(py ''a'', 1)]), (1, [(py ''a'', 1)])],
                dfa_start_state = 2, dfa_accept_states = [3]\<rparr>,
             tv_type = py ''A'', tv_order = 0\<rparr>)],
        source_file_data = py '' ''\<rparr>
     = (Inl InvalidToken,
       \<lparr>lex_alphabet = [py ''a''],
        generated_dfas =
          [(py ''A'',
            \<lparr>tv_dfa =
               \<lparr>dfa_alphabet = [py ''a''], dfa_number_of_states = 3,
                dfa_transition_function =
                  [(2, [(py ''a'', 3)]), (3, [(py ''a'', 1)]), (1, [(py ''a'', 1)])],
                dfa_start_state = 2, dfa_accept_states = [3]\<rparr>,
             tv_type = py ''A'', tv_order = 0\<rparr>)],
        source_file_data = []\<rparr>)"
  by (simp add: lexer_eval)

section \<open>Characters that no token matches\<close>

text \<open>
  Claim C9 says that \<open>next_token\<close> raises InvalidToken when no DFA reaches an accept
  state on an input with a character that is not a separator. On a character that is
  not in the alphabet of a DFA, \<open>transition\<close> finds no key and the call is left with
  KeyError.
\<close>

theorem next_token_outside_alphabet:
  "fst (next_token
       \<lparr>lex_alphabet = [py ''a''],
        generated_dfas =
          [(py ''A'',
            \<lparr>tv_dfa =
               \<lparr>dfa_alphabet = [py ''a''], dfa_number_of_states = 3,
                dfa_transition_function =
                  [(2, [(py ''a'', 3)]), (3, [(py ''a'', 1)]), (1, [(py ''a'', 1)])],
                dfa_start_state = 2, dfa_accept_states = [3]\<rparr>,
             tv_type = py ''A'', tv_order = 0\<rparr>)],
        source_file_data = py ''c''\<rparr>)
     = Inl KeyError"
  by (simp add: lexer_eval)

section \<open>Malformed description files\<close>

text \<open>
  Claim C8 says that a malformed description file, a file without the line of the
  start state among them, makes the constructor fail with FileFormatError. A file
  that ends after the alphabet line: the loop over the transitions ends on the empty
  list of words, and \<open>transition_data[0]\<close> raises IndexError.
\<close>

theorem missing_start_state_line:
  "read_dfa_data_from_file ascii_builtins (py ''1'' @ [10] @ py ''a'' @ [10]) = Inl IndexError"
  by (simp add: file_eval)

text \<open>The exception of that file is not the one of the format errors.\<close>

theorem missing_start_state_line_witness:
  "read_dfa_data_from_file ascii_builtins (py ''1'' @ [10] @ py ''a'' @ [10])
     \<noteq> Inl FileFormatError"
  using missing_start_state_line by simp

section \<open>The transitions of an accepted description file\<close>

text \<open>The two cases of the loop over the transition lines.\<close>

lemma transition_lines_stop: "length td \<noteq> 3 \<Longrightarrow> transition_lines td content = []"
  by (subst transition_lines.simps) simp

lemma transition_lines_step:
  "length td = 3 \<Longrightarrow> transition_lines td content
     = td # transition_lines (split (strip (fst (readline content)))) (snd (readline content))"
  by (subst transition_lines.simps) simp

lemma read_transitions_stop:
  "length td \<noteq> 3 \<Longrightarrow> read_transitions B N al tf td content = Inr (tf, td, content)"
  by (subst read_transitions.simps) simp

lemma read_transitions_step:
  "length td = 3 \<Longrightarrow> read_transitions B N al tf td content
     = (case validate_transition B N al (td ! 0) (td ! 2) (strip_quotes (td ! 1)) of
          Inl e \<Rightarrow> Inl e
        | Inr valid \<Rightarrow>
            if \<not> valid then Inl FileFormatError
            else read_transitions B N al
                   (store_transition tf (td ! 0) (td ! 2) (strip_quotes (td ! 1)))
                   (split (strip (fst (readline content)))) (snd (readline content)))"
  by (subst read_transitions.simps) (simp add: Let_def del: One_nat_def)

lemma validate_transition_True:
  "validate_transition B N al s d a = Inr True \<Longrightarrow>
     validate_state B N s = Inr True \<and> validate_state B N d = Inr True \<and> a \<in> set al"
  by (auto simp: validate_transition_def split: sum.splits if_splits)

text \<open>
  What the loop leaves: the table that stores the records of the file in their order,
  each of them validated.
\<close>

lemma read_transitions_records:
  "read_transitions B N al tf td content = Inr (tf', lastd, content') \<Longrightarrow>
     tf' = foldl (\<lambda>t r. store_transition t (r ! 0) (r ! 2) (strip_quotes (r ! 1))) tf
             (transition_lines td content)
     \<and> list_all (\<lambda>r. validate_transition B N al (r ! 0) (r ! 2) (strip_quotes (r ! 1)) = Inr True)
          (transition_lines td content)
     \<and> length lastd \<noteq> 3"
proof (induction B N al tf td content rule: read_transitions.induct)
  case (1 B N al tf td content)
  show ?case
  proof (cases "length td = 3")
    case False
    with "1.prems" show ?thesis
      by (simp add: read_transitions_stop transition_lines_stop)
  next
    case True
    from "1.prems" True have
      v: "validate_transition B N al (td ! 0) (td ! 2) (strip_quotes (td ! 1)) = Inr True"
      by (simp add: read_transitions_step split: sum.splits if_splits)
    with "1.prems" True have
      r: "read_transitions B N al
            (store_transition tf (td ! 0) (td ! 2) (strip_quotes (td ! 1)))
            (split (strip (fst (readline content)))) (snd (readline content))
          = Inr (tf', lastd, content')"
      by (simp add: read_transitions_step)
    from "1.IH" [OF True refl refl refl v _ r] have
      "tf' = foldl (\<lambda>t r. store_transition t (r ! 0) (r ! 2) (strip_quotes (r ! 1)))
               (store_transition tf (td ! 0) (td ! 2) (strip_quotes (td ! 1)))
               (transition_lines (split (strip (fst (readline content)))) (snd (readline content)))
       \<and> list_all (\<lambda>r. validate_transition B N al (r ! 0) (r ! 2) (strip_quotes (r ! 1)) = Inr True)
            (transition_lines (split (strip (fst (readline content)))) (snd (readline content)))
       \<and> length lastd \<noteq> 3"
      by simp
    with v True show ?thesis
      by (simp add: transition_lines_step)
  qed
qed

lemma table_get_store:
  "table_get (store_transition tf s d a) s' a'
     = (if s' = s \<and> a' = a then Some d else table_get tf s' a')"
  by (auto simp: table_get_def store_transition_def map_of_dict_set split: option.splits)

lemma table_get_records:
  "table_get (foldl (\<lambda>t r. store_transition t (r ! 0) (r ! 2) (strip_quotes (r ! 1))) tf recs) s a
      = Some d \<Longrightarrow>
   table_get tf s a = Some d
   \<or> (\<exists>r\<in>set recs. r ! 0 = s \<and> strip_quotes (r ! 1) = a \<and> r ! 2 = d)"
proof (induction recs arbitrary: tf)
  case Nil
  then show ?case by simp
next
  case (Cons r recs)
  from Cons.prems have
    "table_get (foldl (\<lambda>t r. store_transition t (r ! 0) (r ! 2) (strip_quotes (r ! 1)))
        (store_transition tf (r ! 0) (r ! 2) (strip_quotes (r ! 1))) recs) s a = Some d"
    by simp
  from Cons.IH [OF this] show ?case
    by (auto simp: table_get_store split: if_splits)
qed

lemma table_get_records_defined:
  "(\<exists>r\<in>set recs. r ! 0 = s \<and> strip_quotes (r ! 1) = a) \<or> table_get tf s a = Some d0 \<Longrightarrow>
   \<exists>d. table_get (foldl (\<lambda>t r. store_transition t (r ! 0) (r ! 2) (strip_quotes (r ! 1))) tf recs) s a
      = Some d"
proof (induction recs arbitrary: tf d0)
  case Nil
  then show ?case by simp
next
  case (Cons r recs)
  show ?case
  proof (cases "r ! 0 = s \<and> strip_quotes (r ! 1) = a")
    case True
    then have "table_get (store_transition tf (r ! 0) (r ! 2) (strip_quotes (r ! 1))) s a
                 = Some (r ! 2)"
      by (simp add: table_get_store)
    from Cons.IH [OF disjI2, OF this] show ?thesis by simp
  next
    case False
    with Cons.prems have
      "(\<exists>r\<in>set recs. r ! 0 = s \<and> strip_quotes (r ! 1) = a)
       \<or> table_get (store_transition tf (r ! 0) (r ! 2) (strip_quotes (r ! 1))) s a = Some d0"
      by (auto simp: table_get_store)
    from Cons.IH [OF this] show ?thesis by simp
  qed
qed


lemma accepted_dfa_shape:
  assumes "read_dfa_data_from_file B content = Inr D"
  shows "dfa_transition_function D
           = foldl (\<lambda>t r. store_transition t (r ! 0) (r ! 2) (strip_quotes (r ! 1))) []
               (dfa_file_records content)
     \<and> list_all (\<lambda>r. validate_transition B (dfa_number_of_states D) (dfa_alphabet D)
                        (r ! 0) (r ! 2) (strip_quotes (r ! 1)) = Inr True)
          (dfa_file_records content)
     \<and> validate_state B (dfa_number_of_states D) (dfa_start_state D) = Inr True"
proof -
  let ?c1 = "snd (readline content)"
  let ?c2 = "snd (readline ?c1)"
  let ?td = "split (strip (fst (readline ?c2)))"
  let ?c3 = "snd (readline ?c2)"
  from assms obtain N where N: "int_of_str B (strip (fst (readline content))) = Some N"
    by (auto simp: read_dfa_data_from_file_def Let_def split: if_splits option.splits)
  let ?al = "map (\<lambda>ch. [ch]) (strip (fst (readline ?c1)))"
  from assms N obtain tf lastd c4 where
    rt: "read_transitions B N ?al [] ?td ?c3 = Inr (tf, lastd, c4)"
    by (auto simp: read_dfa_data_from_file_def Let_def
        split: if_splits option.splits sum.splits prod.splits)
  from assms N rt obtain start_text ws where
    l: "lastd = start_text # ws" and
    v: "validate_state B N start_text = Inr True" and
    D: "dfa_transition_function D = tf" "dfa_number_of_states D = N" "dfa_alphabet D = ?al"
       "dfa_start_state D = start_text"
    by (auto simp: read_dfa_data_from_file_def Let_def
        split: if_splits option.splits sum.splits prod.splits list.splits)
  from read_transitions_records [OF rt] D v show ?thesis
    by (simp add: dfa_file_records_def Let_def)
qed

text \<open>
  Claim C3, amended. For a description file that the constructor accepts,
  \<open>transition(state, symbol)\<close> is defined exactly for the state texts and symbols
  that a transition record of the file pairs (first word, and second word without its
  quotes); where it is defined, the state, the state it returns and the symbol are
  valid; and \<open>simulate\<close> fails on no string over the alphabet when every state text
  that is the start state or the destination of a record has a record for every symbol
  of the alphabet.
\<close>

theorem accepted_dfa_transitions:
  assumes "read_dfa_data_from_file B content = Inr D"
  shows "(\<forall>s a. (\<exists>d. transition D s a = Inr d)
             \<longleftrightarrow> (\<exists>r\<in>set (dfa_file_records content). r ! 0 = s \<and> strip_quotes (r ! 1) = a))
     \<and> (\<forall>s a d. transition D s a = Inr d \<longrightarrow>
           validate_state B (dfa_number_of_states D) s = Inr True
           \<and> validate_state B (dfa_number_of_states D) d = Inr True
           \<and> a \<in> set (dfa_alphabet D))
     \<and> ((\<forall>q\<in>insert (dfa_start_state D) ((\<lambda>r. r ! 2) ` set (dfa_file_records content)).
           \<forall>a\<in>set (dfa_alphabet D).
             \<exists>r\<in>set (dfa_file_records content). r ! 0 = q \<and> strip_quotes (r ! 1) = a)
         \<longrightarrow> (\<forall>str. (\<forall>ch\<in>set str. [ch] \<in> set (dfa_alphabet D))
                 \<longrightarrow> (\<exists>b. simulate D str = Inr b)))"
proof -
  let ?recs = "dfa_file_records content"
  let ?store = "\<lambda>t r. store_transition t (r ! 0) (r ! 2) (strip_quotes (r ! 1))"
  from accepted_dfa_shape [OF assms] have
    tf: "dfa_transition_function D = foldl ?store [] ?recs" and
    valid: "list_all (\<lambda>r. validate_transition B (dfa_number_of_states D) (dfa_alphabet D)
                        (r ! 0) (r ! 2) (strip_quotes (r ! 1)) = Inr True) ?recs"
    by simp_all
  have tr: "transition D s a = Inr d \<longleftrightarrow> table_get (foldl ?store [] ?recs) s a = Some d" for s a d
    by (simp add: transition_def tf split: option.splits)
  have nil: "table_get [] s a = None" for s :: pystr and a :: pystr
    by (simp add: table_get_def)
  have found: "\<exists>r\<in>set ?recs. r ! 0 = s \<and> strip_quotes (r ! 1) = a \<and> r ! 2 = d"
    if "transition D s a = Inr d" for s a d
    using table_get_records [of "[]" ?recs s a d] that by (simp add: tr nil)
  have defined: "\<exists>d. transition D s a = Inr d"
    if "\<exists>r\<in>set ?recs. r ! 0 = s \<and> strip_quotes (r ! 1) = a" for s a
    using table_get_records_defined [of ?recs s a "[]" s] that by (simp add: tr)
  have 1: "(\<exists>d. transition D s a = Inr d)
             \<longleftrightarrow> (\<exists>r\<in>set ?recs. r ! 0 = s \<and> strip_quotes (r ! 1) = a)" for s a
    using found defined by blast
  have 2: "validate_state B (dfa_number_of_states D) s = Inr True
           \<and> validate_state B (dfa_number_of_states D) d = Inr True
           \<and> a \<in> set (dfa_alphabet D)"
    if "transition D s a = Inr d" for s a d
  proof -
    from found [OF that] obtain r where
      r: "r \<in> set ?recs" "r ! 0 = s" "strip_quotes (r ! 1) = a" "r ! 2 = d"
      by blast
    with valid have "validate_transition B (dfa_number_of_states D) (dfa_alphabet D) s d a = Inr True"
      by (auto simp: list_all_iff)
    then show ?thesis by (rule validate_transition_True)
  qed
  have 3: "\<exists>b. simulate D str = Inr b"
    if closed: "\<forall>q\<in>insert (dfa_start_state D) ((\<lambda>r. r ! 2) ` set ?recs).
           \<forall>a\<in>set (dfa_alphabet D). \<exists>r\<in>set ?recs. r ! 0 = q \<and> strip_quotes (r ! 1) = a"
      and over: "\<forall>ch\<in>set str. [ch] \<in> set (dfa_alphabet D)" for str
  proof -
    have "\<exists>q. simulate_from D curr w = Inr q"
      if "curr \<in> insert (dfa_start_state D) ((\<lambda>r. r ! 2) ` set ?recs)"
        and "\<forall>ch\<in>set w. [ch] \<in> set (dfa_alphabet D)" for curr w
      using that
    proof (induction w arbitrary: curr)
      case Nil
      then show ?case by simp
    next
      case (Cons ch w)
      from Cons.prems closed have "\<exists>r\<in>set ?recs. r ! 0 = curr \<and> strip_quotes (r ! 1) = [ch]"
        by auto
      from defined [OF this] obtain d where d: "transition D curr [ch] = Inr d" by blast
      from found [OF d] have "d \<in> insert (dfa_start_state D) ((\<lambda>r. r ! 2) ` set ?recs)"
        by auto
      from Cons.IH [OF this] Cons.prems(2) d show ?case by simp
    qed
    from this [of "dfa_start_state D" str] over show ?thesis
      by (auto simp: simulate_def)
  qed
  from 1 2 3 show ?thesis by blast
qed


text \<open>
  Claim C3 as stated fails: the constructor does not look at which transitions the
  file gives. A file with one state, the alphabet \<open>a\<close> and no transition record is
  accepted; \<open>transition\<close> is not defined for its state and symbol, and \<open>simulate\<close>
  fails on the string \<open>a\<close>.
\<close>

theorem accepted_dfa_not_total:
  "read_dfa_data_from_file ascii_builtins
       (py ''1'' @ [10] @ py ''a'' @ [10] @ py ''1'' @ [10] @ [10])
     = Inr \<lparr>dfa_alphabet = [py ''a''], dfa_number_of_states = 1,
            dfa_transition_function = [], dfa_start_state = py ''1'',
            dfa_accept_states = []\<rparr>
   \<and> transition
       \<lparr>dfa_alphabet = [py ''a''], dfa_number_of_states = 1,
            dfa_transition_function = [], dfa_start_state = py ''1'',
            dfa_accept_states = []\<rparr> (py ''1'') (py ''a'')
     = Inl KeyError
   \<and> simulate
       \<lparr>dfa_alphabet = [py ''a''], dfa_number_of_states = 1,
            dfa_transition_function = [], dfa_start_state = py ''1'',
            dfa_accept_states = []\<rparr> (py ''a'')
     = Inl KeyError"
  by (simp add: file_eval transition_def table_get_def simulate_def)

text \<open>A file with one state and its one transition.\<close>

theorem accepted_dfa_transitions_witness:
  "read_dfa_data_from_file ascii_builtins
       (py ''1'' @ [10] @ py ''a'' @ [10] @ py ''1 '' @ [39, 97, 39] @ py '' 1'' @ [10] @ py ''1'' @ [10] @ py ''1'' @ [10])
     = Inr \<lparr>dfa_alphabet = [py ''a''], dfa_number_of_states = 1,
            dfa_transition_function = [(py ''1'', [(py ''a'', py ''1'')])],
            dfa_start_state = py ''1'', dfa_accept_states = [py ''1'']\<rparr>
   \<and> (\<exists>d. transition
       \<lparr>dfa_alphabet = [py ''a''], dfa_number_of_states = 1,
            dfa_transition_function = [(py ''1'', [(py ''a'', py ''1'')])],
            dfa_start_state = py ''1'', dfa_accept_states = [py ''1'']\<rparr> (py ''1'') (py ''a'') = Inr d)
   \<and> (\<exists>b. simulate
       \<lparr>dfa_alphabet = [py ''a''], dfa_number_of_states = 1,
            dfa_transition_function = [(py ''1'', [(py ''a'', py ''1'')])],
            dfa_start_state = py ''1'', dfa_accept_states = [py ''1'']\<rparr> (py ''aa'') = Inr b)"
proof -
  let ?F = "(py ''1'' @ [10] @ py ''a'' @ [10] @ py ''1 '' @ [39, 97, 39] @ py '' 1'' @ [10] @ py ''1'' @ [10] @ py ''1'' @ [10])"
  let ?D = "\<lparr>dfa_alphabet = [py ''a''], dfa_number_of_states = 1,
            dfa_transition_function = [(py ''1'', [(py ''a'', py ''1'')])],
            dfa_start_state = py ''1'', dfa_accept_states = [py ''1'']\<rparr>"
  have acc: "read_dfa_data_from_file ascii_builtins ?F = Inr ?D"
    by (simp add: file_eval)
  have recs: "dfa_file_records ?F = [[py ''1'', [39, 97, 39], py ''1'']]"
    by (simp add: dfa_file_records_def transition_lines.simps file_eval)
  from accepted_dfa_transitions [OF acc] have
    1: "(\<exists>d. transition ?D (py ''1'') (py ''a'') = Inr d)
          \<longleftrightarrow> (\<exists>r\<in>set (dfa_file_records ?F). r ! 0 = py ''1'' \<and> strip_quotes (r ! 1) = py ''a'')"
    and 3: "(\<forall>q\<in>insert (dfa_start_state ?D) ((\<lambda>r. r ! 2) ` set (dfa_file_records ?F)).
           \<forall>a\<in>set (dfa_alphabet ?D).
             \<exists>r\<in>set (dfa_file_records ?F). r ! 0 = q \<and> strip_quotes (r ! 1) = a)
         \<longrightarrow> (\<forall>str. (\<forall>ch\<in>set str. [ch] \<in> set (dfa_alphabet ?D))
                 \<longrightarrow> (\<exists>b. simulate ?D str = Inr b))"
    by blast+
  have d: "\<exists>d. transition ?D (py ''1'') (py ''a'') = Inr d"
    unfolding 1 recs by (simp add: strip_quotes_def py_def)
  have "\<forall>q\<in>insert (dfa_start_state ?D) ((\<lambda>r. r ! 2) ` set (dfa_file_records ?F)).
           \<forall>a\<in>set (dfa_alphabet ?D).
             \<exists>r\<in>set (dfa_file_records ?F). r ! 0 = q \<and> strip_quotes (r ! 1) = a"
    unfolding recs by (simp add: strip_quotes_def py_def)
  with 3 have "\<forall>str. (\<forall>ch\<in>set str. [ch] \<in> set (dfa_alphabet ?D))
                 \<longrightarrow> (\<exists>b. simulate ?D str = Inr b)"
    by blast
  then have "(\<forall>ch\<in>set (py ''aa''). [ch] \<in> set (dfa_alphabet ?D))
                 \<longrightarrow> (\<exists>b. simulate ?D (py ''aa'') = Inr b)"
    by blast
  then have s: "\<exists>b. simulate ?D (py ''aa'') = Inr b"
    by (simp add: py_def)
  from acc d s show ?thesis by blast
qed

section \<open>The tie between token types\<close>

text \<open>
  \<open>_multiple_token_decider\<close> returns a token value of the lowest order when that
  order is below the initial value of \<open>lowest_order\<close>.
\<close>

lemma decider_fold:
  "foldl decider_step (b, low) ts = (b', low') \<Longrightarrow>
     (\<forall>t\<in>set ts. low' \<le> tv_order t) \<and>
     ((b' = b \<and> low' = low) \<or> (\<exists>t\<in>set ts. b' = Some t \<and> tv_order t = low' \<and> low' < low))"
proof (induction ts arbitrary: b low)
  case Nil
  then show ?case by simp
next
  case (Cons x xs)
  show ?case
  proof (cases "tv_order x < low")
    case True
    then have "decider_step (b, low) x = (Some x, tv_order x)"
      by (simp add: decider_step_def)
    with Cons.prems have "foldl decider_step (Some x, tv_order x) xs = (b', low')"
      by simp
    from Cons.IH [OF this] True show ?thesis by auto
  next
    case False
    then have "decider_step (b, low) x = (b, low)"
      by (simp add: decider_step_def)
    with Cons.prems have "foldl decider_step (b, low) xs = (b', low')"
      by simp
    from Cons.IH [OF this] False show ?thesis by auto
  qed
qed

lemma decider_lowest:
  assumes "\<exists>c\<in>set ts. tv_order c < 10000000"
  shows "\<exists>t\<in>set ts. multiple_token_decider ts = Some t \<and> (\<forall>c\<in>set ts. tv_order t \<le> tv_order c)"
proof -
  obtain b' low' where f: "foldl decider_step (None, 10000000) ts = (b', low')"
    by (cases "foldl decider_step (None, 10000000) ts")
  from decider_fold [OF f] assms show ?thesis
    unfolding multiple_token_decider_def f by fastforce
qed

lemma lowest_unique:
  assumes "distinct (map tv_order ts)" "t \<in> set ts" "u \<in> set ts"
    "\<forall>c\<in>set ts. tv_order t \<le> tv_order c" "\<forall>c\<in>set ts. tv_order u \<le> tv_order c"
  shows "t = u"
proof -
  have "tv_order t = tv_order u" using assms by (simp add: order_antisym)
  moreover have "inj_on tv_order (set ts)" using assms(1) by (simp add: distinct_map)
  ultimately show ?thesis using assms(2,3) by (auto dest: inj_onD)
qed

text \<open>
  The loop over the DFAs collects the token values whose scan reached an accept state
  at the greatest length, in the order of the dictionary.
\<close>

lemma analyze_fold:
  assumes "\<forall>item\<in>set items. \<exists>found. scan_token input (snd item) = Inr found"
    and "\<forall>item\<in>set items. \<forall>l. scan_token input (snd item) = Inr (l, True) \<longrightarrow> l \<le> m"
    and "n \<le> m"
  shows "\<exists>acc' n'. fold_err (analyze_dfa input) (acc, n) items = Inr (acc', n') \<and> n \<le> n' \<and> n' \<le> m
     \<and> (n' = m \<longrightarrow> acc' = (if n = m then acc else [])
            @ filter (\<lambda>tv. scan_token input tv = Inr (m, True)) (map snd items))
     \<and> ((\<exists>item\<in>set items. scan_token input (snd item) = Inr (m, True)) \<longrightarrow> n' = m)"
  using assms
proof (induction items arbitrary: acc n)
  case Nil
  then show ?case by simp
next
  case (Cons x xs)
  obtain l r where sc: "scan_token input (snd x) = Inr (l, r)"
    using Cons.prems(1) by fastforce
  have rest1: "\<forall>item\<in>set xs. \<exists>found. scan_token input (snd item) = Inr found"
    and rest2: "\<forall>item\<in>set xs. \<forall>l. scan_token input (snd item) = Inr (l, True) \<longrightarrow> l \<le> m"
    using Cons.prems by auto
  have lm: "r \<Longrightarrow> l \<le> m" using Cons.prems(2) sc by auto
  consider (gt) "r" "l > n" | (eq) "r" "l = n" | (no) "\<not> r \<or> l < n" by linarith
  then show ?case
  proof cases
    case gt
    then have step: "analyze_dfa input (acc, n) x = Inr ([snd x], l)"
      by (simp add: analyze_dfa_def Let_def sc)
    from Cons.IH [OF rest1 rest2, of l "[snd x]"] lm gt
    obtain acc' n' where
      "fold_err (analyze_dfa input) ([snd x], l) xs = Inr (acc', n')" "l \<le> n'" "n' \<le> m"
      "n' = m \<longrightarrow> acc' = (if l = m then [snd x] else [])
            @ filter (\<lambda>tv. scan_token input tv = Inr (m, True)) (map snd xs)"
      "(\<exists>item\<in>set xs. scan_token input (snd item) = Inr (m, True)) \<longrightarrow> n' = m"
      by auto
    then show ?thesis using gt sc step by (auto simp: )
  next
    case eq
    then have step: "analyze_dfa input (acc, n) x = Inr (acc @ [snd x], n)"
      by (simp add: analyze_dfa_def Let_def sc)
    from Cons.IH [OF rest1 rest2 Cons.prems(3), of "acc @ [snd x]"]
    obtain acc' n' where
      "fold_err (analyze_dfa input) (acc @ [snd x], n) xs = Inr (acc', n')" "n \<le> n'" "n' \<le> m"
      "n' = m \<longrightarrow> acc' = (if n = m then acc @ [snd x] else [])
            @ filter (\<lambda>tv. scan_token input tv = Inr (m, True)) (map snd xs)"
      "(\<exists>item\<in>set xs. scan_token input (snd item) = Inr (m, True)) \<longrightarrow> n' = m"
      by auto
    then show ?thesis using eq sc step by (auto simp: )
  next
    case no
    then have step: "analyze_dfa input (acc, n) x = Inr (acc, n)"
      by (auto simp: analyze_dfa_def Let_def sc)
    from Cons.IH [OF rest1 rest2 Cons.prems(3), of acc]
    obtain acc' n' where
      "fold_err (analyze_dfa input) (acc, n) xs = Inr (acc', n')" "n \<le> n'" "n' \<le> m"
      "n' = m \<longrightarrow> acc' = (if n = m then acc else [])
            @ filter (\<lambda>tv. scan_token input tv = Inr (m, True)) (map snd xs)"
      "(\<exists>item\<in>set xs. scan_token input (snd item) = Inr (m, True)) \<longrightarrow> n' = m"
      by auto
    then show ?thesis using no sc step Cons.prems(3) by (auto simp: )
  qed
qed


lemma analyze_input_tie:
  assumes scans: "\<forall>item\<in>set dfas. \<exists>found. scan_token input (snd item) = Inr found"
    and longest: "\<forall>item\<in>set dfas. \<forall>l. scan_token input (snd item) = Inr (l, True) \<longrightarrow> l \<le> m"
    and two: "2 \<le> length (filter (\<lambda>tv. scan_token input tv = Inr (m, True)) (map snd dfas))"
    and dfas: "generated_dfas L = dfas"
  shows "analyze_input L input
     = Inr (multiple_token_decider (filter (\<lambda>tv. scan_token input tv = Inr (m, True)) (map snd dfas)),
            take m input, m)"
proof -
  let ?cands = "filter (\<lambda>tv. scan_token input tv = Inr (m, True)) (map snd dfas)"
  from two have "length ?cands \<noteq> 0" by linarith
  then have "?cands \<noteq> []" by (metis list.size(3))
  then obtain tv where "tv \<in> set ?cands" by (meson last_in_set)
  then have ex: "\<exists>item\<in>set dfas. scan_token input (snd item) = Inr (m, True)"
    by auto
  from analyze_fold [OF scans longest, of 0 "[]"] ex
  have f: "fold_err (analyze_dfa input) ([], 0) dfas = Inr (?cands, m)"
    by auto
  from two obtain a b rest where "?cands = a # b # rest"
    by (cases ?cands; cases "tl ?cands") auto
  then show ?thesis
    by (simp add: analyze_input_def dfas f)
qed

lemma next_token_of_analysis:
  assumes "source_file_data L \<noteq> []"
    and "analyze_input L (source_file_data L) = Inr (Some t, matched, n)"
  shows "fst (next_token L) = Inr (tv_type t, filter (\<lambda>c. c \<noteq> 32) matched)"
  using assms by (simp add: next_token_def Let_def)

text \<open>
  The tie below the initial value of \<open>lowest_order\<close>. In a call of \<open>next_token\<close>
  on a text that is not empty, in which the scan of every DFA ends without an
  exception, two or more token values reach an accept state at the greatest matched
  length \<open>m\<close>, and the lowest order among them is below 10000000: \<open>next_token\<close>
  returns the type of a token value of the lowest order among them, with the first
  \<open>m\<close> characters of the text without their separators. When the orders of these
  token values are pairwise different, the result is the same for every order in which
  the dictionary holds the token values.
\<close>

theorem tie_break_lowest_order:
  assumes nonempty: "source_file_data L \<noteq> []"
    and scans: "\<forall>item\<in>set (generated_dfas L).
                  \<exists>found. scan_token (source_file_data L) (snd item) = Inr found"
    and longest: "\<forall>item\<in>set (generated_dfas L).
                  \<forall>l. scan_token (source_file_data L) (snd item) = Inr (l, True) \<longrightarrow> l \<le> m"
    and cands: "cands = filter (\<lambda>tv. scan_token (source_file_data L) tv = Inr (m, True))
                          (map snd (generated_dfas L))"
    and two: "2 \<le> length cands"
    and below: "\<exists>c\<in>set cands. tv_order c < 10000000"
  shows "\<exists>t\<in>set cands. (\<forall>c\<in>set cands. tv_order t \<le> tv_order c)
      \<and> fst (next_token L)
          = Inr (tv_type t, filter (\<lambda>c. c \<noteq> 32) (take m (source_file_data L)))
      \<and> (distinct (map tv_order cands) \<longrightarrow>
           (\<forall>dfas'. mset dfas' = mset (generated_dfas L) \<longrightarrow>
              fst (next_token (L\<lparr>generated_dfas := dfas'\<rparr>)) = fst (next_token L)))"
proof -
  let ?input = "source_file_data L"
  let ?P = "\<lambda>tv. scan_token ?input tv = Inr (m, True)"
  from decider_lowest [OF below] obtain t where
    t: "t \<in> set cands" "multiple_token_decider cands = Some t"
       "\<forall>c\<in>set cands. tv_order t \<le> tv_order c"
    by auto
  have an: "analyze_input L ?input = Inr (Some t, take m ?input, m)"
    using analyze_input_tie [OF scans longest, of L] two t(2) unfolding cands by simp
  have res: "fst (next_token L) = Inr (tv_type t, filter (\<lambda>c. c \<noteq> 32) (take m ?input))"
    by (rule next_token_of_analysis [OF nonempty an])
  have perm: "fst (next_token (L\<lparr>generated_dfas := dfas'\<rparr>)) = fst (next_token L)"
    if d: "distinct (map tv_order cands)" and m: "mset dfas' = mset (generated_dfas L)" for dfas'
  proof -
    let ?L' = "L\<lparr>generated_dfas := dfas'\<rparr>"
    let ?cands' = "filter ?P (map snd dfas')"
    have seteq: "set dfas' = set (generated_dfas L)"
      using m by (rule mset_eq_setD)
    have mc: "mset ?cands' = mset cands"
      unfolding cands using m by (metis mset_filter mset_map)
    then have sc: "set ?cands' = set cands" by (rule mset_eq_setD)
    have lc: "length ?cands' = length cands" using mc by (rule mset_eq_length)
    have scans': "\<forall>item\<in>set dfas'. \<exists>found. scan_token ?input (snd item) = Inr found"
      using scans seteq by simp
    have longest': "\<forall>item\<in>set dfas'. \<forall>l. scan_token ?input (snd item) = Inr (l, True) \<longrightarrow> l \<le> m"
      using longest seteq by simp
    have below': "\<exists>c\<in>set ?cands'. tv_order c < 10000000"
      using below sc by simp
    from decider_lowest [OF below'] obtain t' where
      t': "t' \<in> set ?cands'" "multiple_token_decider ?cands' = Some t'"
          "\<forall>c\<in>set ?cands'. tv_order t' \<le> tv_order c"
      by auto
    have in': "t' \<in> set cands" using t'(1) sc by blast
    have min': "\<forall>c\<in>set cands. tv_order t' \<le> tv_order c" using t'(3) sc by blast
    have "t' = t"
      by (rule lowest_unique [OF d in' t(1) min' t(3)])
    have "analyze_input ?L' ?input = Inr (Some t', take m ?input, m)"
      using analyze_input_tie [OF scans' longest', of ?L'] two lc t'(2) by simp
    then have "fst (next_token ?L') = Inr (tv_type t', filter (\<lambda>c. c \<noteq> 32) (take m ?input))"
      using next_token_of_analysis [of ?L' t' "take m ?input" m] nonempty by simp
    with res \<open>t' = t\<close> show ?thesis by simp
  qed
  from t(1,3) res perm show ?thesis by blast
qed


text \<open>Two token values of the orders 0 and 1 that both accept the text \<open>a\<close>.\<close>

theorem tie_break_lowest_order_witness:
  "fst (next_token
       \<lparr>lex_alphabet = [py ''a''],
        generated_dfas =
          [(py ''A'',
            \<lparr>tv_dfa =
               \<lparr>dfa_alphabet = [py ''a''], dfa_number_of_states = 3,
                dfa_transition_function =
                  [(2, [(py ''a'', 3)]), (3, [(py ''a'', 1)]), (1, [(py ''a'', 1)])],
                dfa_start_state = 2, dfa_accept_states = [3]\<rparr>,
             tv_type = py ''A'', tv_order = 0\<rparr>),
           (py ''B'',
            \<lparr>tv_dfa =
               \<lparr>dfa_alphabet = [py ''a''], dfa_number_of_states = 3,
                dfa_transition_function =
                  [(2, [(py ''a'', 3)]), (3, [(py ''a'', 1)]), (1, [(py ''a'', 1)])],
                dfa_start_state = 2, dfa_accept_states = [3]\<rparr>,
             tv_type = py ''B'', tv_order = 1\<rparr>)],
        source_file_data = py ''a''\<rparr>)
     = Inr (py ''A'', py ''a'')"
proof -
  let ?A = "\<lparr>tv_dfa =
               \<lparr>dfa_alphabet = [py ''a''], dfa_number_of_states = 3,
                dfa_transition_function =
                  [(2, [(py ''a'', 3)]), (3, [(py ''a'', 1)]), (1, [(py ''a'', 1)])],
                dfa_start_state = 2, dfa_accept_states = [3]\<rparr>,
             tv_type = py ''A'', tv_order = 0\<rparr>"
  let ?B = "\<lparr>tv_dfa =
               \<lparr>dfa_alphabet = [py ''a''], dfa_number_of_states = 3,
                dfa_transition_function =
                  [(2, [(py ''a'', 3)]), (3, [(py ''a'', 1)]), (1, [(py ''a'', 1)])],
                dfa_start_state = 2, dfa_accept_states = [3]\<rparr>,
             tv_type = py ''B'', tv_order = 1\<rparr>"
  let ?L = "\<lparr>lex_alphabet = [py ''a''], generated_dfas = [(py ''A'', ?A), (py ''B'', ?B)],
             source_file_data = py ''a''\<rparr>"
  have sA: "scan_token (py ''a'') ?A = Inr (1, True)"
    by (simp add: lexer_eval)
  have sB: "scan_token (py ''a'') ?B = Inr (1, True)"
    by (simp add: lexer_eval)
  have 1: "source_file_data ?L \<noteq> []"
    by (simp add: py_def)
  have 2: "\<forall>item\<in>set (generated_dfas ?L).
             \<exists>found. scan_token (source_file_data ?L) (snd item) = Inr found"
    using sA sB by auto
  have 3: "\<forall>item\<in>set (generated_dfas ?L).
             \<forall>l. scan_token (source_file_data ?L) (snd item) = Inr (l, True) \<longrightarrow> l \<le> 1"
    using sA sB by simp
  have 4: "[?A, ?B] = filter (\<lambda>tv. scan_token (source_file_data ?L) tv = Inr (1, True))
                          (map snd (generated_dfas ?L))"
    using sA sB by simp
  have 5: "2 \<le> length [?A, ?B]"
    by simp
  have 6: "\<exists>c\<in>set [?A, ?B]. tv_order c < 10000000"
    by simp
  from tie_break_lowest_order [OF 1 2 3 4 5 6] obtain t where
    t: "t \<in> set [?A, ?B]" "\<forall>c\<in>set [?A, ?B]. tv_order t \<le> tv_order c"
       "fst (next_token ?L) = Inr (tv_type t, filter (\<lambda>c. c \<noteq> 32) (take 1 (source_file_data ?L)))"
    by blast
  from t(1,2) have "t = ?A" by auto
  with t(3) show ?thesis by (simp add: py_def)
qed

subsection \<open>The orders that the constructor gives\<close>

lemma keys_dict_set: "fst ` set (dict_set d k v) = insert k (fst ` set d)"
  by (induction d) auto

lemma distinct_keys_dict_set:
  "distinct (map fst d) \<Longrightarrow> distinct (map fst (dict_set d k v))"
  by (induction d) (auto simp: keys_dict_set)

lemma set_dict_set:
  "distinct (map fst d) \<Longrightarrow> set (dict_set d k v) = insert (k, v) {p \<in> set d. fst p \<noteq> k}"
  by (induction d) (auto simp: image_iff)

lemma orders_inv_empty: "orders_inv mk al [] []"
  by (simp add: orders_inv_def)

lemma orders_inv_step:
  assumes inv: "orders_inv mk al pre dfas"
    and mk: "mk al (slice_inner (split nl ! 1)) = Inr d"
  shows "orders_inv mk al (pre @ [nl])
           (dict_set dfas (split nl ! 0)
              \<lparr>tv_dfa = d, tv_type = split nl ! 0, tv_order = int (length pre)\<rparr>)"
proof -
  let ?ty = "split nl ! 0"
  let ?tv = "\<lparr>tv_dfa = d, tv_type = ?ty, tv_order = int (length pre)\<rparr>"
  let ?lines = "pre @ [nl]"
  from inv have dk: "distinct (map fst dfas)" by (simp add: orders_inv_def)
  have 1: "distinct (map fst (dict_set dfas ?ty ?tv))"
    by (rule distinct_keys_dict_set [OF dk])
  have 2: "\<exists>i<length ?lines.
         tv_order (snd item) = int i \<and> tv_type (snd item) = fst item
       \<and> split (?lines ! i) ! 0 = fst item
       \<and> mk al (slice_inner (split (?lines ! i) ! 1)) = Inr (tv_dfa (snd item))
       \<and> (\<forall>j<length ?lines. i < j \<longrightarrow> split (?lines ! j) ! 0 \<noteq> fst item)"
    if item: "item \<in> set (dict_set dfas ?ty ?tv)" for item
  proof (cases "item = (?ty, ?tv)")
    case True
    then show ?thesis using mk
      by (intro exI [of _ "length pre"]) simp
  next
    case False
    with item have old: "item \<in> set dfas" and ne: "fst item \<noteq> ?ty"
      by (auto simp: set_dict_set [OF dk])
    from inv old obtain i where i: "i < length pre" "tv_order (snd item) = int i"
      "tv_type (snd item) = fst item" "split (pre ! i) ! 0 = fst item"
      "mk al (slice_inner (split (pre ! i) ! 1)) = Inr (tv_dfa (snd item))"
      "\<forall>j<length pre. i < j \<longrightarrow> split (pre ! j) ! 0 \<noteq> fst item"
      unfolding orders_inv_def by blast
    have later: "split (?lines ! j) ! 0 \<noteq> fst item" if "j < length ?lines" "i < j" for j
    proof (cases "j < length pre")
      case True
      with i(6) that show ?thesis by (simp add: nth_append)
    next
      case False
      with that have "j = length pre" by simp
      with ne show ?thesis by simp
    qed
    from i later show ?thesis
      by (intro exI [of _ i]) (simp add: nth_append)
  qed
  have 3: "split (?lines ! i) ! 0 \<in> fst ` set (dict_set dfas ?ty ?tv)" if "i < length ?lines" for i
  proof (cases "i < length pre")
    case True
    with inv have "split (pre ! i) ! 0 \<in> fst ` set dfas" by (simp add: orders_inv_def)
    with True show ?thesis by (simp add: keys_dict_set nth_append)
  next
    case False
    with that have "i = length pre" by simp
    then show ?thesis by (simp add: keys_dict_set)
  qed
  from 1 2 3 show ?thesis unfolding orders_inv_def by blast
qed

lemma read_token_lines_orders:
  assumes "orders_inv mk al pre dfas" and "n = int (length pre)"
    and "read_token_lines mk al dfas nl n content = (None, dfas')"
  shows "orders_inv mk al (pre @ token_lines nl content) dfas'"
  using assms
proof (induction mk al dfas nl n content arbitrary: pre rule: read_token_lines.induct)
  case (1 mk al dfas nl n content)
  show ?case
  proof (cases "nl = []")
    case True
    with "1.prems" show ?thesis
      by (simp add: read_token_lines.simps token_lines.simps)
  next
    case False
    with "1.prems"(3) have two: "length (split nl) = 2"
      by (auto simp: read_token_lines.simps split: if_splits)
    from False two "1.prems"(3) obtain dfas1 where
      pp: "pre_process_regex mk al dfas (split nl ! 0) (slice_inner (split nl ! 1)) n = Inr dfas1"
      and rest: "read_token_lines mk al dfas1 (strip (fst (readline content))) (n + 1)
                   (snd (readline content)) = (None, dfas')"
      by (subst (asm) read_token_lines.simps) (auto simp: Let_def split: sum.splits)
    from pp obtain d where d: "mk al (slice_inner (split nl ! 1)) = Inr d"
      and dfas1: "dfas1 = dict_set dfas (split nl ! 0)
                    \<lparr>tv_dfa = d, tv_type = split nl ! 0, tv_order = n\<rparr>"
      by (auto simp: pre_process_regex_def split: sum.splits)
    have inv1: "orders_inv mk al (pre @ [nl]) dfas1"
      unfolding dfas1 "1.prems"(2) by (rule orders_inv_step [OF "1.prems"(1) d])
    have n1: "n + 1 = int (length (pre @ [nl]))" using "1.prems"(2) by simp
    have two': "\<not> length (split nl) \<noteq> 2" using two by simp
    from "1.IH" [OF False two' refl refl pp inv1 n1 rest]
    have "orders_inv mk al ((pre @ [nl]) @ token_lines (strip (fst (readline content)))
                                           (snd (readline content))) dfas'" .
    then show ?thesis using False by (simp add: token_lines.simps [of nl])
  qed
qed

lemma orders_inv_distinct:
  assumes "orders_inv mk al lines dfas"
  shows "distinct (map (\<lambda>item. tv_order (snd item)) dfas)"
proof -
  from assms have dk: "distinct (map fst dfas)" by (simp add: orders_inv_def)
  then have dd: "distinct dfas" by (simp add: distinct_map)
  have "inj_on (\<lambda>item. tv_order (snd item)) (set dfas)"
  proof (rule inj_onI)
    fix p q assume p: "p \<in> set dfas" and q: "q \<in> set dfas"
      and eq: "tv_order (snd p) = tv_order (snd q)"
    from assms p obtain i where i: "tv_order (snd p) = int i" "split (lines ! i) ! 0 = fst p"
      unfolding orders_inv_def by blast
    from assms q obtain j where j: "tv_order (snd q) = int j" "split (lines ! j) ! 0 = fst q"
      unfolding orders_inv_def by blast
    from eq i j have "fst p = fst q" by simp
    moreover from dk have "inj_on fst (set dfas)" by (simp add: distinct_map)
    ultimately show "p = q" using p q by (auto dest: inj_onD)
  qed
  with dd show ?thesis by (simp add: distinct_map)
qed

lemma initialize_from_file_orders:
  assumes "fst (initialize_from_file mk content L0) = None" and "generated_dfas L0 = []"
  shows "orders_inv mk (lex_alphabet (snd (initialize_from_file mk content L0)))
           (lex_token_lines content) (generated_dfas (snd (initialize_from_file mk content L0)))"
proof -
  let ?al = "map (\<lambda>ch. [ch]) (slice_inner (strip (fst (readline content))))"
  let ?c1 = "snd (readline content)"
  let ?nl = "strip (fst (readline ?c1))"
  let ?c2 = "snd (readline ?c1)"
  obtain e dfas where r: "read_token_lines mk ?al [] ?nl 0 ?c2 = (e, dfas)"
    by (cases "read_token_lines mk ?al [] ?nl 0 ?c2")
  with assms have e: "e = None"
    by (simp add: initialize_from_file_def Let_def)
  have "orders_inv mk ?al ([] @ token_lines ?nl ?c2) dfas"
    by (rule read_token_lines_orders [OF orders_inv_empty _ r [unfolded e]]) simp
  then show ?thesis
    using assms(2) r by (simp add: initialize_from_file_def Let_def lex_token_lines_def)
qed

text \<open>
  When \<open>_initialize_from_file\<close> raises no exception, the lexer has one token value
  for every type of the specification, and the order of a token value is the index,
  from 0, of the last line of its type among the lines of the token types: the orders
  are pairwise different, and a type declared once has the position of its line.
\<close>

theorem token_orders:
  assumes "fst (initialize_from_file regex_to_dfa regex_file
             \<lparr>lex_alphabet = [], generated_dfas = [], source_file_data = []\<rparr>) = None"
  shows "distinct (map fst (generated_dfas (Lex_init regex_to_dfa regex_file source_file)))
     \<and> distinct (map (\<lambda>item. tv_order (snd item))
                   (generated_dfas (Lex_init regex_to_dfa regex_file source_file)))
     \<and> (\<forall>item\<in>set (generated_dfas (Lex_init regex_to_dfa regex_file source_file)).
           \<exists>i<length (lex_token_lines regex_file).
             tv_order (snd item) = int i \<and> tv_type (snd item) = fst item
           \<and> split (lex_token_lines regex_file ! i) ! 0 = fst item
           \<and> (\<forall>j<length (lex_token_lines regex_file).
                 i < j \<longrightarrow> split (lex_token_lines regex_file ! j) ! 0 \<noteq> fst item))
     \<and> (\<forall>i<length (lex_token_lines regex_file).
           split (lex_token_lines regex_file ! i) ! 0
             \<in> fst ` set (generated_dfas (Lex_init regex_to_dfa regex_file source_file)))"
proof -
  let ?L0 = "\<lparr>lex_alphabet = [], generated_dfas = [], source_file_data = []\<rparr>"
  let ?L1 = "snd (initialize_from_file regex_to_dfa regex_file ?L0)"
  have g: "generated_dfas (Lex_init regex_to_dfa regex_file source_file) = generated_dfas ?L1"
    using assms by (simp add: Lex_init_def Let_def)
  have inv: "orders_inv regex_to_dfa (lex_alphabet ?L1) (lex_token_lines regex_file)
               (generated_dfas ?L1)"
    by (rule initialize_from_file_orders [OF assms]) simp
  from inv orders_inv_distinct [OF inv] show ?thesis
    unfolding g orders_inv_def by blast
qed

text \<open>The specification of the token types A and B, both with the expression \<open>a\<close>.\<close>

lemma Lex_init_two_types:
  "generated_dfas
     (Lex_init (\<lambda>alphabet regex_str. Inr D)
        ([34, 97, 34, 10] @ py ''A '' @ [34, 97, 34, 10] @ py ''B '' @ [34, 97, 34, 10])
        (py ''a'' @ [10]))
     = [(py ''A'', \<lparr>tv_dfa = D, tv_type = py ''A'', tv_order = 0\<rparr>),
        (py ''B'', \<lparr>tv_dfa = D, tv_type = py ''B'', tv_order = 1\<rparr>)]
   \<and> source_file_data
     (Lex_init (\<lambda>alphabet regex_str. Inr D)
        ([34, 97, 34, 10] @ py ''A '' @ [34, 97, 34, 10] @ py ''B '' @ [34, 97, 34, 10])
        (py ''a'' @ [10]))
     = py ''a ''"
  by (simp add: Lex_init_def initialize_from_file_def read_token_lines.simps
      pre_process_regex_def slice_inner_def read_source_file_def file_eval)

text \<open>
  So a tie in a lexer that the constructor has built is decided for the type declared
  earliest among the types in the tie, whatever the order of the dictionary, when that
  type is declared in one of the first 10000000 lines.
\<close>

theorem tie_break_earliest_line:
  assumes init: "fst (initialize_from_file regex_to_dfa regex_file
                   \<lparr>lex_alphabet = [], generated_dfas = [], source_file_data = []\<rparr>) = None"
    and L: "generated_dfas L = generated_dfas (Lex_init regex_to_dfa regex_file source_file)"
    and nonempty: "source_file_data L \<noteq> []"
    and scans: "\<forall>item\<in>set (generated_dfas L).
                  \<exists>found. scan_token (source_file_data L) (snd item) = Inr found"
    and longest: "\<forall>item\<in>set (generated_dfas L).
                  \<forall>l. scan_token (source_file_data L) (snd item) = Inr (l, True) \<longrightarrow> l \<le> m"
    and cands: "cands = filter (\<lambda>tv. scan_token (source_file_data L) tv = Inr (m, True))
                          (map snd (generated_dfas L))"
    and two: "2 \<le> length cands"
    and below: "\<exists>c\<in>set cands. tv_order c < 10000000"
  shows "\<exists>t\<in>set cands. (\<forall>c\<in>set cands. c \<noteq> t \<longrightarrow> tv_order t < tv_order c)
      \<and> fst (next_token L)
          = Inr (tv_type t, filter (\<lambda>c. c \<noteq> 32) (take m (source_file_data L)))
      \<and> (\<forall>dfas'. mset dfas' = mset (generated_dfas L) \<longrightarrow>
            fst (next_token (L\<lparr>generated_dfas := dfas'\<rparr>)) = fst (next_token L))"
proof -
  from token_orders [OF init, of source_file]
  have "distinct (map (\<lambda>item. tv_order (snd item)) (generated_dfas L))"
    unfolding L by blast
  then have "distinct (map tv_order (map snd (generated_dfas L)))"
    by (simp add: comp_def)
  then have d: "distinct (map tv_order cands)"
    unfolding cands by (rule distinct_map_filter)
  from tie_break_lowest_order [OF nonempty scans longest cands two below] d
  obtain t where t: "t \<in> set cands" "\<forall>c\<in>set cands. tv_order t \<le> tv_order c"
    "fst (next_token L) = Inr (tv_type t, filter (\<lambda>c. c \<noteq> 32) (take m (source_file_data L)))"
    "\<forall>dfas'. mset dfas' = mset (generated_dfas L) \<longrightarrow>
        fst (next_token (L\<lparr>generated_dfas := dfas'\<rparr>)) = fst (next_token L)"
    by blast
  have "tv_order t < tv_order c" if c: "c \<in> set cands" "c \<noteq> t" for c
  proof -
    from d have "inj_on tv_order (set cands)" by (simp add: distinct_map)
    with c t(1) have "tv_order c \<noteq> tv_order t" by (auto dest: inj_onD)
    with t(2) c(1) show ?thesis by fastforce
  qed
  with t show ?thesis by blast
qed

subsection \<open>The tie from the order 10000000 on\<close>

lemma decider_from_10000000:
  assumes "\<forall>c\<in>set ts. 10000000 \<le> tv_order c"
  shows "multiple_token_decider ts = None"
proof -
  obtain b' low' where f: "foldl decider_step (None, 10000000) ts = (b', low')"
    by (cases "foldl decider_step (None, 10000000) ts")
  from decider_fold [OF f] assms have "b' = None" by fastforce
  then show ?thesis by (simp add: multiple_token_decider_def f)
qed

text \<open>
  Claim C7 says that \<open>next_token\<close> returns the type declared earliest whenever two or
  more token types reach an accept state at the same greatest length. The orders are
  the indices of the lines of the specification, and \<open>_multiple_token_decider\<close>
  starts with \<open>lowest_order = 10000000\<close> and no token value: when every token value
  in the tie has an order of 10000000 or more, which is a tie between types declared
  after the first 10000000 lines, no order is below \<open>lowest_order\<close>, the decider
  returns \<open>None\<close>, and \<open>next_token\<close> raises InvalidToken where its docstring and
  that of the decider promise the type of the lowest order.
\<close>

theorem tie_from_order_10000000:
  assumes nonempty: "source_file_data L \<noteq> []"
    and scans: "\<forall>item\<in>set (generated_dfas L).
                  \<exists>found. scan_token (source_file_data L) (snd item) = Inr found"
    and longest: "\<forall>item\<in>set (generated_dfas L).
                  \<forall>l. scan_token (source_file_data L) (snd item) = Inr (l, True) \<longrightarrow> l \<le> m"
    and cands: "cands = filter (\<lambda>tv. scan_token (source_file_data L) tv = Inr (m, True))
                          (map snd (generated_dfas L))"
    and two: "2 \<le> length cands"
    and late: "\<forall>c\<in>set cands. 10000000 \<le> tv_order c"
  shows "fst (next_token L) = Inl InvalidToken"
proof -
  have "analyze_input L (source_file_data L)
          = Inr (multiple_token_decider cands, take m (source_file_data L), m)"
    using analyze_input_tie [OF scans longest, of L] two unfolding cands by simp
  then have "analyze_input L (source_file_data L) = Inr (None, take m (source_file_data L), m)"
    by (simp add: decider_from_10000000 [OF late])
  then show ?thesis
    using nonempty by (simp add: next_token_def Let_def)
qed

text \<open>Two token values of the orders 10000000 and 10000001 that both accept the text \<open>a\<close>.\<close>

theorem tie_from_order_10000000_witness:
  "fst (next_token
       \<lparr>lex_alphabet = [py ''a''],
        generated_dfas =
          [(py ''A'',
            \<lparr>tv_dfa =
               \<lparr>dfa_alphabet = [py ''a''], dfa_number_of_states = 3,
                dfa_transition_function =
                  [(2, [(py ''a'', 3)]), (3, [(py ''a'', 1)]), (1, [(py ''a'', 1)])],
                dfa_start_state = 2, dfa_accept_states = [3]\<rparr>,
             tv_type = py ''A'', tv_order = 10000000\<rparr>),
           (py ''B'',
            \<lparr>tv_dfa =
               \<lparr>dfa_alphabet = [py ''a''], dfa_number_of_states = 3,
                dfa_transition_function =
                  [(2, [(py ''a'', 3)]), (3, [(py ''a'', 1)]), (1, [(py ''a'', 1)])],
                dfa_start_state = 2, dfa_accept_states = [3]\<rparr>,
             tv_type = py ''B'', tv_order = 10000001\<rparr>)],
        source_file_data = py ''a''\<rparr>)
     = Inl InvalidToken"
proof -
  let ?D = "\<lparr>dfa_alphabet = [py ''a''], dfa_number_of_states = 3,
             dfa_transition_function =
               [(2, [(py ''a'', 3)]), (3, [(py ''a'', 1)]), (1, [(py ''a'', 1)])],
             dfa_start_state = 2, dfa_accept_states = [3]\<rparr> :: int DFA"
  let ?A = "\<lparr>tv_dfa = ?D, tv_type = py ''A'', tv_order = 10000000\<rparr>"
  let ?B = "\<lparr>tv_dfa = ?D, tv_type = py ''B'', tv_order = 10000001\<rparr>"
  let ?L = "\<lparr>lex_alphabet = [py ''a''], generated_dfas = [(py ''A'', ?A), (py ''B'', ?B)],
             source_file_data = py ''a''\<rparr>"
  have sA: "scan_token (py ''a'') ?A = Inr (1, True)"
    and sB: "scan_token (py ''a'') ?B = Inr (1, True)"
    by (simp_all add: scan_token_def transition_def table_get_def py_def)
  have cands: "[?A, ?B] = filter (\<lambda>tv. scan_token (source_file_data ?L) tv = Inr (1, True))
                            (map snd (generated_dfas ?L))"
    using sA sB by simp
  have "fst (next_token ?L) = Inl InvalidToken"
  proof (rule tie_from_order_10000000 [where m = 1 and cands = "[?A, ?B]"])
    show "source_file_data ?L \<noteq> []" by (simp add: py_def)
    show "\<forall>item\<in>set (generated_dfas ?L).
            \<exists>found. scan_token (source_file_data ?L) (snd item) = Inr found"
      using sA sB by auto
    show "\<forall>item\<in>set (generated_dfas ?L).
            \<forall>l. scan_token (source_file_data ?L) (snd item) = Inr (l, True) \<longrightarrow> l \<le> 1"
      using sA sB by simp
    show "[?A, ?B] = filter (\<lambda>tv. scan_token (source_file_data ?L) tv = Inr (1, True))
                            (map snd (generated_dfas ?L))"
      by (rule cands)
    show "2 \<le> length [?A, ?B]" by simp
    show "\<forall>c\<in>set [?A, ?B]. 10000000 \<le> tv_order c" by simp
  qed
  then show ?thesis .
qed

section \<open>The states of the DFA of an NFA\<close>

subsection \<open>Dictionaries with frozensets as keys\<close>

lemma same_set_refl [simp]: "same_set S S"
  by (simp add: same_set_iff)

lemma same_set_Nil [simp]: "same_set [] T \<longleftrightarrow> T = []" "same_set T [] \<longleftrightarrow> T = []"
  by (auto simp: same_set_iff)

lemma fs_lookup_cong: "same_set T T' \<Longrightarrow> fs_lookup m T = fs_lookup m T'"
  by (induction m) (auto simp: same_set_iff)

lemma fs_lookup_fs_set:
  "fs_lookup (fs_set m S v) T = (if same_set S T then Some v else fs_lookup m T)"
  by (induction m) (auto simp: same_set_iff)

lemma fs_delete_Nil [simp]: "fs_delete [] S = []"
  by (simp add: fs_delete_def)

lemma fs_delete_Cons [simp]:
  "fs_delete (p # ps) S = (if same_set (fst p) S then fs_delete ps S else p # fs_delete ps S)"
  by (simp add: fs_delete_def)

lemma fs_lookup_fs_delete:
  "fs_lookup (fs_delete m S) T = (if same_set S T then None else fs_lookup m T)"
proof (induction m)
  case Nil
  then show ?case by simp
next
  case (Cons p ps)
  show ?case
  proof (cases "same_set (fst p) S")
    case True
    then have "same_set (fst p) T \<longleftrightarrow> same_set S T"
      by (simp add: same_set_iff)
    with True Cons show ?thesis by simp
  next
    case False
    then have "same_set S T \<Longrightarrow> \<not> same_set (fst p) T"
      by (simp add: same_set_iff)
    with False Cons show ?thesis by auto
  qed
qed

lemma dict_set_fresh: "k \<notin> fst ` set d \<Longrightarrow> dict_set d k v = d @ [(k, v)]"
  by (induction d) auto

lemma map_of_dict_delete: "map_of (dict_delete d k) k' = (if k' = k then None else map_of d k')"
  by (induction d) (auto simp: dict_delete_def)

lemma foldl_dict_set_distinct:
  "distinct as \<Longrightarrow> set as \<inter> fst ` set t = {} \<Longrightarrow>
     foldl (\<lambda>t a. dict_set t a (f a)) t as = t @ map (\<lambda>a. (a, f a)) as"
proof (induction as arbitrary: t)
  case Nil
  then show ?case by simp
next
  case (Cons a as)
  from Cons.prems have fresh: "a \<notin> fst ` set t" by auto
  have d: "distinct as" using Cons.prems(1) by simp
  have disj: "set as \<inter> fst ` set (t @ [(a, f a)]) = {}"
    using Cons.prems by auto
  have "foldl (\<lambda>t a. dict_set t a (f a)) t (a # as)
          = foldl (\<lambda>t a. dict_set t a (f a)) (dict_set t a (f a)) as"
    by simp
  also have "dict_set t a (f a) = t @ [(a, f a)]"
    using fresh by (rule dict_set_fresh)
  also have "foldl (\<lambda>t a. dict_set t a (f a)) (t @ [(a, f a)]) as
          = (t @ [(a, f a)]) @ map (\<lambda>a. (a, f a)) as"
    using d disj by (rule Cons.IH)
  finally show ?case by simp
qed

subsection \<open>The loop of \_nfa\_conversion\<close>

lemma fst_foldl_scan_symbol:
  "fst (foldl (scan_symbol N S) (t, q, fe) as)
     = foldl (\<lambda>t a. dict_set t a (FrozenSet (dest_states N S a))) t as"
  by (induction as arbitrary: t q fe) (auto simp: scan_symbol_def Let_def)

lemma found_foldl_scan_symbol:
  "snd (snd (foldl (scan_symbol N S) (t, q, fe) as))
     = (fe \<or> (\<exists>a\<in>set as. dest_states N S a = []))"
  by (induction as arbitrary: t q fe) (auto simp: scan_symbol_def Let_def)

lemma scan_alphabet_row:
  "distinct (nfa_alphabet N) \<Longrightarrow> fst (scan_alphabet N S queue fe) = row N S"
proof -
  assume "distinct (nfa_alphabet N)"
  then have "foldl (\<lambda>t a. dict_set t a (FrozenSet (dest_states N S a))) [] (nfa_alphabet N)
               = [] @ map (\<lambda>a. (a, FrozenSet (dest_states N S a))) (nfa_alphabet N)"
    by (rule foldl_dict_set_distinct) simp
  then show ?thesis
    by (simp add: scan_alphabet_def fst_foldl_scan_symbol row_def)
qed

lemma scan_alphabet_found:
  "snd (snd (scan_alphabet N S queue fe))
     = (fe \<or> (\<exists>a\<in>set (nfa_alphabet N). dest_states N S a = []))"
  by (simp add: scan_alphabet_def found_foldl_scan_symbol)

lemma epsilon_loop_seen: "set seen \<union> set queue \<subseteq> set (epsilon_loop N queue seen)"
  by (induction N queue seen rule: epsilon_loop.induct) auto

lemma get_epsilon_closure_nonempty: "get_epsilon_closure N s \<noteq> []"
  using epsilon_loop_seen [of "[]" "[s]" N] by (auto simp: get_epsilon_closure_def)

lemma conv_inv_init:
  assumes "start \<noteq> []"
  shows "conv_inv N start [start] (initial_conversion start)"
  using assms
  by (simp add: conv_inv_def initial_conversion_def generate_int_mapping_def
      generate_int_mapping_reverse_def enumerate_eq_zip)

lemma conv_inv_skip:
  assumes inv: "conv_inv N start (S # queue) c"
    and handled: "list_ex (same_set S) (states_handled c)"
  shows "conv_inv N start queue c"
proof -
  let ?H = "states_handled c"
  from handled obtain S0 where S0: "S0 \<in> set ?H" "same_set S S0"
    by (auto simp: list_ex_iff)
  have ne: "?H \<noteq> []" using S0 by auto
  have closure: "\<exists>S'\<in>set ?H \<union> set queue. same_set S' (dest_states N X a)"
    if "X \<in> set ?H" "a \<in> set (nfa_alphabet N)" "dest_states N X a \<noteq> []" for X a
  proof -
    from inv that obtain S' where S': "S' \<in> set ?H \<union> set (S # queue)" "same_set S' (dest_states N X a)"
      unfolding conv_inv_def by blast
    show ?thesis
    proof (cases "S' = S")
      case True
      with S0 S'(2) have "same_set S0 (dest_states N X a)"
        by (simp add: same_set_iff)
      with S0(1) show ?thesis by blast
    next
      case False
      with S' show ?thesis by auto
    qed
  qed
  from inv ne closure show ?thesis
    unfolding conv_inv_def by auto
qed

lemma enumerate_snoc: "enumerate 0 (xs @ [x]) = enumerate 0 xs @ [(length xs, x)]"
  by (simp add: enumerate_append_eq)

lemma in_enumerate_less: "(i, x) \<in> set (enumerate 0 xs) \<Longrightarrow> i < length xs \<and> x \<in> set xs"
  by (auto simp: in_set_enumerate_eq)

lemma conv_inv_step:
  assumes inv: "conv_inv N start (S # queue) c"
    and unhandled: "\<not> list_ex (same_set S) (states_handled c)"
    and dist: "distinct (nfa_alphabet N)"
    and r: "r = scan_alphabet N S queue (found_empty c)"
  shows "conv_inv N start (fst (snd r)) (record_state S (fst r) (snd (snd r)) c)"
proof -
  let ?H = "states_handled c"
  let ?k = "length ?H"
  let ?m = "dfa_state_int_mapping c"
  let ?rev = "dfa_state_int_mapping_reverse c"
  let ?c' = "record_state S (fst r) (snd (snd r)) c"
  let ?new = "filter (\<lambda>d. d \<noteq> []) (map (dest_states N S) (nfa_alphabet N))"
  have row: "fst r = row N S"
    unfolding r using dist by (rule scan_alphabet_row)
  have queue': "fst (snd r) = queue @ ?new"
    unfolding r by (rule scan_alphabet_queue)
  have fe: "snd (snd r) = (found_empty c \<or> (\<exists>a\<in>set (nfa_alphabet N). dest_states N S a = []))"
    unfolding r by (rule scan_alphabet_found)
  have fresh: "set S \<notin> set ` set ?H"
    using unhandled by (simp add: list_ex_same_set)
  have Sne: "S \<noteq> []" using inv unfolding conv_inv_def by auto
  have startne: "start \<noteq> []" using inv unfolding conv_inv_def by auto
  have nosame: "\<not> same_set X S" if "X \<in> set ?H" for X
    using fresh that by (auto simp: same_set_iff)
  have known: "fs_lookup ?m S = (if ?H = [] then Some 2 else None)"
  proof (cases "?H = []")
    case True
    with inv have "S = start" unfolding conv_inv_def by auto
    with inv True show ?thesis unfolding conv_inv_def by auto
  next
    case False
    with inv have hd: "start \<in> set ?H" unfolding conv_inv_def by (metis hd_in_set)
    have "fs_lookup ?m S = None"
    proof (rule ccontr)
      assume "fs_lookup ?m S \<noteq> None"
      then obtain v where "fs_lookup ?m S = Some v" by auto
      with inv have "S = [] \<or> same_set start S \<or> (\<exists>X\<in>set ?H. same_set X S)"
        unfolding conv_inv_def by blast
      with Sne hd nosame show False by blast
    qed
    with False show ?thesis by simp
  qed
  have nid: "next_state_id c = int ?k + 2" using inv unfolding conv_inv_def by auto
  have set_id: "(case fs_lookup ?m S of Some i \<Rightarrow> i | None \<Rightarrow> next_state_id c) = int ?k + 2"
    using known nid by (cases "?H = []") auto
  have H': "states_handled ?c' = ?H @ [S]" by simp
  have m': "dfa_state_int_mapping ?c' = (if ?H = [] then ?m else fs_set ?m S (int ?k + 2))"
    using known nid by (cases "?H = []") (auto simp: record_state_def Let_def)
  have rev': "dfa_state_int_mapping_reverse ?c'
                = (if ?H = [] then ?rev else dict_set ?rev (int ?k + 2) S)"
    using known nid by (cases "?H = []") (auto simp: record_state_def Let_def)
  have tf0: "conv_transition_function c = map (\<lambda>(i, S). (int i + 2, row N S)) (enumerate 0 ?H)"
    using inv unfolding conv_inv_def by auto
  have keyfresh: "int ?k + 2 \<notin> fst ` set (conv_transition_function c)"
    unfolding tf0 by (auto dest: in_enumerate_less)
  have "conv_transition_function ?c'
          = dict_set (conv_transition_function c) (int ?k + 2) (row N S)"
    using set_id row by (simp add: record_state_def Let_def)
  also have "\<dots> = conv_transition_function c @ [(int ?k + 2, row N S)]"
    using keyfresh by (rule dict_set_fresh)
  finally have tf': "conv_transition_function ?c'
          = map (\<lambda>(i, S). (int i + 2, row N S)) (enumerate 0 (?H @ [S]))"
    by (simp add: tf0 enumerate_snoc)
  have nid': "next_state_id ?c' = int (length (?H @ [S])) + 2"
    using nid by (simp add: record_state_def Let_def)
  have ns': "conv_number_of_states ?c' = int (length (?H @ [S])) + 1"
    using inv unfolding conv_inv_def by (simp add: record_state_def Let_def)
  have st': "conv_start_state ?c' = 2"
    using inv unfolding conv_inv_def by (simp add: record_state_def Let_def)
  have fe': "found_empty ?c' = snd (snd r)"
    by (simp add: record_state_def Let_def)
  have 1: "distinct (map set (?H @ [S]))"
    using inv fresh unfolding conv_inv_def by auto
  have 2: "[] \<notin> set (?H @ [S])"
    using inv Sne unfolding conv_inv_def by auto
  have 3: "[] \<notin> set (fst (snd r))"
    using inv unfolding conv_inv_def queue' by auto
  have 5: "hd (?H @ [S]) = start"
    using inv unfolding conv_inv_def by (cases ?H) auto
  have l1: "fs_lookup (dfa_state_int_mapping ?c') [] = Some 1"
    using inv Sne unfolding conv_inv_def m' by (auto simp: fs_lookup_fs_set)
  have l2: "fs_lookup (dfa_state_int_mapping ?c') start = Some 2"
  proof (cases "?H = []")
    case True
    with inv show ?thesis unfolding conv_inv_def m' by auto
  next
    case False
    with inv have "start \<in> set ?H" unfolding conv_inv_def by (metis hd_in_set)
    then have "\<not> same_set S start" using nosame by (auto simp: same_set_iff)
    with inv False show ?thesis unfolding conv_inv_def m' by (auto simp: fs_lookup_fs_set)
  qed
  have l3: "fs_lookup (dfa_state_int_mapping ?c') X = Some (int i + 2)"
    if "(i, X) \<in> set (enumerate 0 (?H @ [S]))" for i X
  proof (cases "(i, X) \<in> set (enumerate 0 ?H)")
    case True
    then have "X \<in> set ?H" by (auto dest: in_enumerate_less)
    then have "\<not> same_set S X" using nosame by (auto simp: same_set_iff)
    moreover from inv True have "fs_lookup ?m X = Some (int i + 2)"
      unfolding conv_inv_def by blast
    ultimately show ?thesis unfolding m' by (auto simp: fs_lookup_fs_set)
  next
    case False
    with that have iX: "i = ?k" "X = S" by (auto simp: enumerate_snoc)
    show ?thesis
    proof (cases "?H = []")
      case True
      with known iX show ?thesis unfolding m' by simp
    next
      case False
      with iX show ?thesis unfolding m' by (simp add: fs_lookup_fs_set)
    qed
  qed
  have l4: "T = [] \<or> same_set start T \<or> (\<exists>X\<in>set (?H @ [S]). same_set X T)"
    if "fs_lookup (dfa_state_int_mapping ?c') T = Some v" for T v
  proof (cases "?H \<noteq> [] \<and> same_set S T")
    case True
    then show ?thesis by auto
  next
    case False
    with that have "fs_lookup ?m T = Some v"
      unfolding m' by (auto simp: fs_lookup_fs_set split: if_splits)
    with inv have "T = [] \<or> same_set start T \<or> (\<exists>X\<in>set ?H. same_set X T)"
      unfolding conv_inv_def by blast
    then show ?thesis by auto
  qed
  have r1: "map_of (dfa_state_int_mapping_reverse ?c') 1 = Some []"
    using inv unfolding conv_inv_def rev' by (auto simp: map_of_dict_set)
  have r2: "map_of (dfa_state_int_mapping_reverse ?c') 2 = Some start"
    using inv unfolding conv_inv_def rev' by (auto simp: map_of_dict_set)
  have r3: "map_of (dfa_state_int_mapping_reverse ?c') (int i + 2) = Some X"
    if "(i, X) \<in> set (enumerate 0 (?H @ [S]))" for i X
  proof (cases "(i, X) \<in> set (enumerate 0 ?H)")
    case True
    then have "i < ?k" by (auto dest: in_enumerate_less)
    moreover from inv True have "map_of ?rev (int i + 2) = Some X"
      unfolding conv_inv_def by blast
    ultimately show ?thesis unfolding rev' by (auto simp: map_of_dict_set)
  next
    case False
    with that have iX: "i = ?k" "X = S" by (auto simp: enumerate_snoc)
    show ?thesis
    proof (cases "?H = []")
      case True
      with inv have "S = start" "map_of ?rev 2 = Some start" unfolding conv_inv_def by auto
      with True iX show ?thesis unfolding rev' by simp
    next
      case False
      with iX show ?thesis unfolding rev' by (simp add: map_of_dict_set)
    qed
  qed
  have cl: "\<exists>S'\<in>set (?H @ [S]) \<union> set (fst (snd r)). same_set S' (dest_states N X a)"
    if "X \<in> set (?H @ [S])" "a \<in> set (nfa_alphabet N)" "dest_states N X a \<noteq> []" for X a
  proof (cases "X \<in> set ?H")
    case True
    with inv that obtain S' where "S' \<in> set ?H \<union> set (S # queue)" "same_set S' (dest_states N X a)"
      unfolding conv_inv_def by blast
    then show ?thesis unfolding queue' by auto
  next
    case False
    with that have "X = S" by auto
    with that have "dest_states N X a \<in> set (fst (snd r))"
      unfolding queue' by auto
    then show ?thesis by (metis UnCI same_set_refl)
  qed
  have f: "found_empty ?c' \<longleftrightarrow>
         (\<exists>X\<in>set (?H @ [S]). \<exists>a\<in>set (nfa_alphabet N). dest_states N X a = [])"
  proof -
    from inv have "found_empty c \<longleftrightarrow>
         (\<exists>X\<in>set ?H. \<exists>a\<in>set (nfa_alphabet N). dest_states N X a = [])"
      unfolding conv_inv_def by blast
    with fe' fe show ?thesis by auto
  qed
  show ?thesis
    unfolding conv_inv_def H'
    using 1 2 3 5 startne nid' ns' st' tf' l1 l2 l3 l4 r1 r2 r3 cl f
    by (intro conjI) (blast | simp)+
qed

lemma conv_inv_loop:
  "conv_inv N start queue c \<Longrightarrow> distinct (nfa_alphabet N) \<Longrightarrow>
     conv_inv N start [] (conversion_loop N queue c)"
proof (induction N queue c rule: conversion_loop.induct)
  case (1 N c)
  then show ?case by simp
next
  case (2 N S queue c)
  show ?case
  proof (cases "list_ex (same_set S) (states_handled c)")
    case True
    with "2.prems" have "conv_inv N start queue c"
      by (auto intro: conv_inv_skip)
    from "2.IH"(1) [OF True this "2.prems"(2)] True show ?thesis by simp
  next
    case False
    define r where "r = scan_alphabet N S queue (found_empty c)"
    from conv_inv_step [OF "2.prems"(1) False "2.prems"(2) r_def]
    have "conv_inv N start (fst (snd r)) (record_state S (fst r) (snd (snd r)) c)" .
    from "2.IH"(2) [OF False r_def this "2.prems"(2)] False show ?thesis
      by (simp add: r_def Let_def)
  qed
qed

lemma conv_inv_explore:
  assumes "distinct (nfa_alphabet N)" "start \<noteq> []"
  shows "conv_inv N start [] (explore N start)"
  unfolding explore_def
  by (rule conv_inv_loop [OF conv_inv_init [OF assms(2)] assms(1)])

subsection \<open>The rounds of \_finalize\_dfa\<close>

lemma dict_set_middle:
  "k \<notin> fst ` set d \<Longrightarrow> dict_set (d @ (k, v0) # rest) k v = d @ (k, v) # rest"
  by (induction d) auto

lemma map_of_middle:
  "k \<notin> fst ` set d \<Longrightarrow> map_of (d @ (k, v0) # rest) k = Some v0"
  by (induction d) auto

lemma foldl_reject_loop_present:
  "1 \<notin> fst ` set tf \<Longrightarrow>
     foldl reject_loop (tf @ [(1, e)]) as
       = tf @ [(1, foldl (\<lambda>e a. dict_set e a (IntState 1)) e as)]"
proof (induction as arbitrary: e)
  case Nil
  then show ?case by simp
next
  case (Cons a as)
  have "reject_loop (tf @ [(1, e)]) a = tf @ [(1, dict_set e a (IntState 1))]"
    using Cons.prems map_of_middle [of 1 tf e "[]"] dict_set_middle [of 1 tf e "[]"]
    by (simp add: reject_loop_def del: map_of_append)
  with Cons.IH [OF Cons.prems] show ?case by simp
qed

lemma foldl_reject_loop:
  assumes "1 \<notin> fst ` set tf" "distinct as" "as \<noteq> []"
  shows "foldl reject_loop tf as = tf @ [(1, map (\<lambda>a. (a, IntState 1)) as)]"
proof -
  from assms(3) obtain a rest where as: "as = a # rest" by (cases as) auto
  have none: "map_of tf 1 = None"
    using assms(1) by (simp add: map_of_eq_None_iff)
  have first: "reject_loop tf a = tf @ [(1, [(a, IntState 1)])]"
    using assms(1) none by (simp add: reject_loop_def dict_set_fresh)
  have "foldl (\<lambda>e a. dict_set e a (IntState 1)) [(a, IntState 1)] rest
          = [(a, IntState 1)] @ map (\<lambda>a. (a, IntState 1)) rest"
    using assms(2) as by (intro foldl_dict_set_distinct) auto
  with first assms(1) show ?thesis
    by (simp add: as foldl_reject_loop_present)
qed

text \<open>The conversion of a row of frozensets to a row of ints.\<close>

lemma convert_row_general:
  assumes "distinct todo" "set todo \<inter> fst ` set pre = {}"
    and "\<forall>a\<in>set todo. \<exists>v. fs_lookup m (f a) = Some v"
  shows "fold_err (convert_symbol m) (pre @ map (\<lambda>a. (a, FrozenSet (f a))) todo) todo
     = Inr (pre @ map (\<lambda>a. (a, IntState (the (fs_lookup m (f a))))) todo)"
  using assms
proof (induction todo arbitrary: pre)
  case Nil
  then show ?case by simp
next
  case (Cons a todo)
  from Cons.prems have fresh: "a \<notin> fst ` set pre" by auto
  from Cons.prems obtain v where v: "fs_lookup m (f a) = Some v" by auto
  have step: "convert_symbol m (pre @ map (\<lambda>a. (a, FrozenSet (f a))) (a # todo)) a
     = Inr ((pre @ [(a, IntState v)]) @ map (\<lambda>a. (a, FrozenSet (f a))) todo)"
    using fresh v by (simp add: convert_symbol_def map_of_middle dict_set_middle del: map_of_append)
  have "set todo \<inter> fst ` set (pre @ [(a, IntState v)]) = {}"
    using Cons.prems by auto
  from Cons.IH [OF _ this] Cons.prems have
    "fold_err (convert_symbol m)
       ((pre @ [(a, IntState v)]) @ map (\<lambda>a. (a, FrozenSet (f a))) todo) todo
     = Inr ((pre @ [(a, IntState v)]) @ map (\<lambda>a. (a, IntState (the (fs_lookup m (f a))))) todo)"
    by simp
  with step v show ?case by simp
qed

lemma convert_row:
  assumes "distinct (nfa_alphabet N)"
    and "\<forall>a\<in>set (nfa_alphabet N). \<exists>v. fs_lookup m (dest_states N S a) = Some v"
  shows "fold_err (convert_symbol m) (row N S) (nfa_alphabet N)
     = Inr (map (\<lambda>a. (a, IntState (the (fs_lookup m (dest_states N S a))))) (nfa_alphabet N))"
  using convert_row_general [of "nfa_alphabet N" "[]" m "dest_states N S"] assms
  by (simp add: row_def)

lemma fold_err_append:
  "fold_err f a (xs @ ys)
     = (case fold_err f a xs of Inl e \<Rightarrow> Inl e | Inr a' \<Rightarrow> fold_err f a' ys)"
  by (induction xs arbitrary: a) (auto split: sum.splits)

lemma finalize_state_row:
  assumes "map_of (dfa_state_int_mapping_reverse c) s = Some S" "S \<noteq> []"
    and "nfa_accept_states N = Some acc" "s \<noteq> 1"
    and "map_of tf s = Some (row N S)"
    and "distinct (nfa_alphabet N)"
    and "\<forall>a\<in>set (nfa_alphabet N). \<exists>v. fs_lookup (dfa_state_int_mapping c) (dest_states N S a) = Some v"
  shows "finalize_state N c (tf, accept) s
     = Inr (dict_set tf s (crow (dfa_state_int_mapping c) N S),
            if list_ex (\<lambda>q. q \<in> set acc) S then keys_add accept s else accept)"
  using assms convert_row [OF assms(6,7)]
  by (simp add: finalize_state_def accept_check_def crow_def Let_def)

lemma finalize_state_reject:
  assumes "map_of (dfa_state_int_mapping_reverse c) 1 = Some []"
  shows "finalize_state N c (tf, accept) 1 = Inr (tf, accept)"
  using assms by (simp add: finalize_state_def accept_check_def Let_def)

lemma finalize_fold:
  assumes "nfa_accept_states N = Some acc" "distinct (nfa_alphabet N)"
    and "distinct (map fst todo)"
    and "\<forall>(i, S)\<in>set todo.
           map_of (dfa_state_int_mapping_reverse c) (int i + 2) = Some S \<and> S \<noteq> []
           \<and> (\<forall>a\<in>set (nfa_alphabet N).
                 \<exists>v. fs_lookup (dfa_state_int_mapping c) (dest_states N S a) = Some v)
           \<and> int i + 2 \<notin> fst ` set pre \<and> int i + 2 \<notin> set accept"
  shows "fold_err (finalize_state N c)
           (pre @ map (\<lambda>(i, S). (int i + 2, row N S)) todo @ tail, accept)
           (map (\<lambda>(i, S). int i + 2) todo)
     = Inr (pre @ map (\<lambda>(i, S). (int i + 2, crow (dfa_state_int_mapping c) N S)) todo @ tail,
            accept @ map (\<lambda>(i, S). int i + 2)
                       (filter (\<lambda>(i, S). list_ex (\<lambda>q. q \<in> set acc) S) todo))"
  using assms(3,4)
proof (induction todo arbitrary: pre accept)
  case Nil
  then show ?case by simp
next
  case (Cons p todo)
  obtain i S where p: "p = (i, S)" by (cases p)
  let ?s = "int i + 2"
  let ?m = "dfa_state_int_mapping c"
  let ?rest = "map (\<lambda>(i, S). (int i + 2, row N S)) todo @ tail"
  from Cons.prems p have
    rev: "map_of (dfa_state_int_mapping_reverse c) ?s = Some S" and ne: "S \<noteq> []" and
    look: "\<forall>a\<in>set (nfa_alphabet N). \<exists>v. fs_lookup ?m (dest_states N S a) = Some v" and
    fresh: "?s \<notin> fst ` set pre" and nacc: "?s \<notin> set accept"
    by auto
  have s1: "?s \<noteq> 1" by simp
  have lookup: "map_of (pre @ (?s, row N S) # ?rest) ?s = Some (row N S)"
    using fresh by (rule map_of_middle)
  have upd: "dict_set (pre @ (?s, row N S) # ?rest) ?s (crow ?m N S)
               = pre @ (?s, crow ?m N S) # ?rest"
    using fresh by (rule dict_set_middle)
  have step: "finalize_state N c (pre @ (?s, row N S) # ?rest, accept) ?s
     = Inr ((pre @ [(?s, crow ?m N S)]) @ ?rest,
            if list_ex (\<lambda>q. q \<in> set acc) S then accept @ [?s] else accept)"
    using finalize_state_row [OF rev ne assms(1) s1 lookup assms(2) look, of accept] upd nacc
    by (simp add: keys_add_def)
  let ?accept' = "if list_ex (\<lambda>q. q \<in> set acc) S then accept @ [?s] else accept"
  have d: "distinct (map fst todo)" using Cons.prems(1) by simp
  have inot: "i \<notin> fst ` set todo" using Cons.prems(1) p by auto
  have cond: "\<forall>(j, T)\<in>set todo.
           map_of (dfa_state_int_mapping_reverse c) (int j + 2) = Some T \<and> T \<noteq> []
           \<and> (\<forall>a\<in>set (nfa_alphabet N). \<exists>v. fs_lookup ?m (dest_states N T a) = Some v)
           \<and> int j + 2 \<notin> fst ` set (pre @ [(?s, crow ?m N S)]) \<and> int j + 2 \<notin> set ?accept'"
  proof (clarify, intro conjI)
    fix j T assume jT: "(j, T) \<in> set todo"
    with Cons.prems(2) have old:
      "map_of (dfa_state_int_mapping_reverse c) (int j + 2) = Some T" "T \<noteq> []"
      "\<forall>a\<in>set (nfa_alphabet N). \<exists>v. fs_lookup ?m (dest_states N T a) = Some v"
      "int j + 2 \<notin> fst ` set pre" "int j + 2 \<notin> set accept"
      by auto
    from jT inot have ji: "j \<noteq> i" by force
    show "map_of (dfa_state_int_mapping_reverse c) (int j + 2) = Some T" by (rule old(1))
    show "T \<noteq> []" by (rule old(2))
    show "\<forall>a\<in>set (nfa_alphabet N). \<exists>v. fs_lookup ?m (dest_states N T a) = Some v" by (rule old(3))
    show "int j + 2 \<notin> fst ` set (pre @ [(?s, crow ?m N S)])" using old(4) ji by auto
    show "int j + 2 \<notin> set ?accept'" using old(5) ji by auto
  qed
  from Cons.IH [OF d cond] have
    "fold_err (finalize_state N c) ((pre @ [(?s, crow ?m N S)]) @ ?rest, ?accept')
           (map (\<lambda>(i, S). int i + 2) todo)
     = Inr ((pre @ [(?s, crow ?m N S)])
              @ map (\<lambda>(i, S). (int i + 2, crow ?m N S)) todo @ tail,
            ?accept' @ map (\<lambda>(i, S). int i + 2)
                       (filter (\<lambda>(i, S). list_ex (\<lambda>q. q \<in> set acc) S) todo))" .
  with step show ?case by (simp add: p)
qed

text \<open>The shift of the ids of a table, and the table read as the table of a DFA.\<close>

lemma shift_row_general:
  "distinct todo \<Longrightarrow> set todo \<inter> fst ` set pre = {} \<Longrightarrow>
     fold_err shift_value pre (cells g todo) = Inr (pre @ cells (\<lambda>a. g a - 1) todo)"
proof (induction todo arbitrary: pre)
  case Nil
  then show ?case by (simp add: cells_def)
next
  case (Cons a todo)
  from Cons.prems have fresh: "a \<notin> fst ` set pre" by auto
  have step: "shift_value pre (a, IntState (g a)) = Inr (pre @ [(a, IntState (g a - 1))])"
    using fresh by (simp add: shift_value_def dict_set_fresh)
  have "set todo \<inter> fst ` set (pre @ [(a, IntState (g a - 1))]) = {}"
    using Cons.prems by auto
  from Cons.IH [OF _ this] Cons.prems(1) step show ?case
    by (simp add: cells_def)
qed

lemma shift_row:
  "distinct as \<Longrightarrow> generate_shifted_transition_value (cells g as) = Inr (cells (\<lambda>a. g a - 1) as)"
  using shift_row_general [of as "[]" g] by (simp add: generate_shifted_transition_value_def)

lemma shift_table_general:
  assumes "distinct as"
  shows "distinct (map fst kgs) \<Longrightarrow> (\<lambda>k. k - 1) ` fst ` set kgs \<inter> fst ` set pre = {} \<Longrightarrow>
     fold_err shift_entry pre (cell_table as kgs)
       = Inr (pre @ cell_table as (map (\<lambda>kg. (fst kg - 1, \<lambda>a. snd kg a - 1)) kgs))"
proof (induction kgs arbitrary: pre)
  case Nil
  then show ?case by (simp add: cell_table_def)
next
  case (Cons kg kgs)
  from Cons.prems have fresh: "fst kg - 1 \<notin> fst ` set pre" by auto
  have step: "shift_entry pre (fst kg, cells (snd kg) as)
                = Inr (pre @ [(fst kg - 1, cells (\<lambda>a. snd kg a - 1) as)])"
    by (simp add: shift_entry_def shift_row [OF assms] dict_set_fresh [OF fresh])
  have notin: "fst kg \<notin> fst ` set kgs"
    using Cons.prems(1) by simp
  have inj: "k \<in> fst ` set kgs \<Longrightarrow> k - 1 \<noteq> fst kg - 1" for k
  proof
    assume "k \<in> fst ` set kgs" "k - 1 = fst kg - 1"
    then have "fst kg \<in> fst ` set kgs" by simp
    with notin show False by simp
  qed
  have "(\<lambda>k. k - 1) ` fst ` set kgs
          \<inter> fst ` set (pre @ [(fst kg - 1, cells (\<lambda>a. snd kg a - 1) as)]) = {}"
  proof (rule ccontr)
    assume "(\<lambda>k. k - 1) ` fst ` set kgs
          \<inter> fst ` set (pre @ [(fst kg - 1, cells (\<lambda>a. snd kg a - 1) as)]) \<noteq> {}"
    then obtain k where k: "k \<in> fst ` set kgs"
      "k - 1 \<in> fst ` set (pre @ [(fst kg - 1, cells (\<lambda>a. snd kg a - 1) as)])"
      by blast
    from k(2) have "k - 1 \<in> fst ` set pre \<or> k - 1 = fst kg - 1" by auto
    moreover from k(1) Cons.prems(2) have "k - 1 \<notin> fst ` set pre" by auto
    ultimately show False using inj [OF k(1)] by blast
  qed
  from Cons.IH [OF _ this] Cons.prems(1) step show ?case
    by (simp add: cell_table_def)
qed

lemma shift_table:
  assumes "distinct as" "distinct (map fst kgs)"
  shows "generate_shifted_keys_dict (cell_table as kgs)
       = Inr (cell_table as (map (\<lambda>kg. (fst kg - 1, \<lambda>a. snd kg a - 1)) kgs))"
  using shift_table_general [OF assms, of "[]"] by (simp add: generate_shifted_keys_dict_def)

lemma shift_keys_general:
  "distinct xs \<Longrightarrow> (\<lambda>s. s - 1) ` set xs \<inter> set pre = {} \<Longrightarrow>
     foldl (\<lambda>new (state::int). keys_add new (state - 1)) pre xs = pre @ map (\<lambda>s. s - 1) xs"
proof (induction xs arbitrary: pre)
  case Nil
  then show ?case by simp
next
  case (Cons x xs)
  from Cons.prems have fresh: "x - 1 \<notin> set pre" by auto
  have "(\<lambda>s. s - 1) ` set xs \<inter> set (pre @ [x - 1]) = {}"
    using Cons.prems by auto
  from Cons.IH [OF _ this] Cons.prems(1) fresh show ?case
    by (simp add: keys_add_def)
qed

lemma shift_keys:
  "distinct xs \<Longrightarrow> generate_shifted_keys xs = map (\<lambda>s. s - 1) xs"
  using shift_keys_general [of xs "[]"] by (simp add: generate_shifted_keys_def)

lemma read_row_general:
  "fold_err read_value pre (cells g as) = Inr (pre @ map (\<lambda>a. (a, g a)) as)"
  by (induction as arbitrary: pre) (simp_all add: cells_def read_value_def)

lemma read_table_general:
  "fold_err read_entry pre (cell_table as kgs) = Inr (pre @ int_table as kgs)"
  by (induction kgs arbitrary: pre)
     (simp_all add: cell_table_def int_table_def read_entry_def read_row_general)

lemma read_table: "fold_err read_entry [] (cell_table as kgs) = Inr (int_table as kgs)"
  using read_table_general [of "[]"] by simp

lemma table_get_int_table:
  "distinct (map fst kgs) \<Longrightarrow> (k, g) \<in> set kgs \<Longrightarrow> a \<in> set as \<Longrightarrow>
     table_get (int_table as kgs) k a = Some (g a)"
proof -
  assume d: "distinct (map fst kgs)" and kg: "(k, g) \<in> set kgs" and a: "a \<in> set as"
  have "distinct (map fst (int_table as kgs))"
    using d by (simp add: int_table_def comp_def)
  moreover have "(k, map (\<lambda>a. (a, g a)) as) \<in> set (int_table as kgs)"
    using kg by (force simp: int_table_def)
  ultimately have "map_of (int_table as kgs) k = Some (map (\<lambda>a. (a, g a)) as)"
    by (rule map_of_is_SomeI)
  moreover have "map_of (map (\<lambda>a. (a, g a)) as) a = Some (g a)"
    using a by (induction as) auto
  ultimately show ?thesis by (simp add: table_get_def)
qed

lemma table_get_int_table_None:
  "a \<notin> set as \<Longrightarrow> table_get (int_table as kgs) k a = None"
proof -
  assume a: "a \<notin> set as"
  have row: "map_of (map (\<lambda>a. (a, g a)) as) a = None" for g :: "pystr \<Rightarrow> int"
    using a by (simp add: map_of_eq_None_iff image_image)
  show ?thesis
  proof (cases "map_of (int_table as kgs) k")
    case None
    then show ?thesis by (simp add: table_get_def)
  next
    case (Some e)
    then have "(k, e) \<in> set (int_table as kgs)" by (rule map_of_SomeD)
    then obtain g where "e = map (\<lambda>a. (a, g a)) as" by (auto simp: int_table_def)
    with Some row show ?thesis by (simp add: table_get_def)
  qed
qed

subsection \<open>The result of to\_DFA\<close>

lemma explore_facts:
  assumes d: "distinct (nfa_alphabet N)" and ne: "start \<noteq> []"
    and c: "c = explore N start"
  shows "conv_transition_function c
           = map (\<lambda>(i, S). (int i + 2, row N S)) (enumerate 0 (states_handled c))"
    and "\<forall>(i, S)\<in>set (enumerate 0 (states_handled c)).
           map_of (dfa_state_int_mapping_reverse c) (int i + 2) = Some S \<and> S \<noteq> []"
    and "map_of (dfa_state_int_mapping_reverse c) 1 = Some []"
    and "conv_number_of_states c = int (length (states_handled c)) + 1"
    and "conv_start_state c = 2"
    and "states_handled c \<noteq> []"
    and "found_empty c \<longleftrightarrow>
           (\<exists>S\<in>set (states_handled c). \<exists>a\<in>set (nfa_alphabet N). dest_states N S a = [])"
    and "hd (states_handled c) = start"
proof -
  have inv: "conv_inv N start [] c"
    unfolding c by (rule conv_inv_explore [OF d ne])
  show "conv_transition_function c
           = map (\<lambda>(i, S). (int i + 2, row N S)) (enumerate 0 (states_handled c))"
    using inv unfolding conv_inv_def by blast
  show "\<forall>(i, S)\<in>set (enumerate 0 (states_handled c)).
           map_of (dfa_state_int_mapping_reverse c) (int i + 2) = Some S \<and> S \<noteq> []"
  proof (clarify, intro conjI)
    fix i S assume iS: "(i, S) \<in> set (enumerate 0 (states_handled c))"
    with inv show "map_of (dfa_state_int_mapping_reverse c) (int i + 2) = Some S"
      unfolding conv_inv_def by blast
    from iS have "S \<in> set (states_handled c)" by (auto dest: in_enumerate_less)
    with inv show "S \<noteq> []" unfolding conv_inv_def by blast
  qed
  show "map_of (dfa_state_int_mapping_reverse c) 1 = Some []"
    using inv unfolding conv_inv_def by blast
  show "conv_number_of_states c = int (length (states_handled c)) + 1"
    using inv unfolding conv_inv_def by blast
  show "conv_start_state c = 2"
    using inv unfolding conv_inv_def by blast
  show hne: "states_handled c \<noteq> []"
    using inv unfolding conv_inv_def by blast
  show "found_empty c \<longleftrightarrow>
           (\<exists>S\<in>set (states_handled c). \<exists>a\<in>set (nfa_alphabet N). dest_states N S a = [])"
    using inv unfolding conv_inv_def by blast
  show "hd (states_handled c) = start"
    using inv hne unfolding conv_inv_def by blast
qed

lemma explore_lookup:
  assumes d: "distinct (nfa_alphabet N)" and ne: "start \<noteq> []"
    and c: "c = explore N start"
    and S: "S \<in> set (states_handled c)" and a: "a \<in> set (nfa_alphabet N)"
  shows "(dest_states N S a = [] \<and> found_empty c
            \<and> fs_lookup (dfa_state_int_mapping c) (dest_states N S a) = Some 1)
       \<or> (dest_states N S a \<noteq> []
            \<and> (\<exists>(j, S')\<in>set (enumerate 0 (states_handled c)).
                  same_set S' (dest_states N S a)
                  \<and> fs_lookup (dfa_state_int_mapping c) (dest_states N S a) = Some (int j + 2)))"
proof -
  have inv: "conv_inv N start [] c"
    unfolding c by (rule conv_inv_explore [OF d ne])
  show ?thesis
  proof (cases "dest_states N S a = []")
    case True
    moreover from inv have "fs_lookup (dfa_state_int_mapping c) [] = Some 1"
      unfolding conv_inv_def by blast
    moreover from inv True S a have "found_empty c"
      unfolding conv_inv_def by blast
    ultimately show ?thesis by simp
  next
    case False
    from inv have "\<forall>S\<in>set (states_handled c). \<forall>a\<in>set (nfa_alphabet N).
         dest_states N S a \<noteq> [] \<longrightarrow>
         (\<exists>S'\<in>set (states_handled c) \<union> set []. same_set S' (dest_states N S a))"
      unfolding conv_inv_def by blast
    with False S a obtain S' where S': "S' \<in> set (states_handled c)" "same_set S' (dest_states N S a)"
      by auto
    from S'(1) obtain j where "j < length (states_handled c)" "states_handled c ! j = S'"
      by (auto simp: in_set_conv_nth)
    then have j: "(j, S') \<in> set (enumerate 0 (states_handled c))"
      by (simp add: in_set_enumerate_eq)
    with inv have "fs_lookup (dfa_state_int_mapping c) S' = Some (int j + 2)"
      unfolding conv_inv_def by blast
    with fs_lookup_cong [OF S'(2), of "dfa_state_int_mapping c"]
    have "fs_lookup (dfa_state_int_mapping c) (dest_states N S a) = Some (int j + 2)"
      by simp
    with False j S'(2) show ?thesis by blast
  qed
qed

lemma distinct_enumerate_keys:
  "distinct (map (\<lambda>(i, S). int i + k) (enumerate 0 xs))"
proof -
  have "inj_on (\<lambda>(i, S). int i + k) (set (enumerate 0 xs))"
  proof (rule inj_onI)
    fix p q assume p: "p \<in> set (enumerate 0 xs)" and q: "q \<in> set (enumerate 0 xs)"
      and eq: "(case p of (i, S) \<Rightarrow> int i + k) = (case q of (i, S) \<Rightarrow> int i + k)"
    from eq have "fst p = fst q" by (simp add: case_prod_unfold)
    moreover from p have "snd p = xs ! fst p" by (simp add: in_set_enumerate_eq)
    moreover from q have "snd q = xs ! fst q" by (simp add: in_set_enumerate_eq)
    ultimately show "p = q" by (simp add: prod_eq_iff)
  qed
  then show ?thesis by (simp add: distinct_map)
qed

lemma keys_cell_table: "fst ` set (cell_table as kgs) = fst ` set kgs"
  by (force simp: cell_table_def)

lemma to_DFA_built_reject:
  assumes d: "distinct (nfa_alphabet N)" and acc: "nfa_accept_states N = Some acc"
    and fe: "reject_reached N"
  shows "to_DFA N = Inr (built_dfa N acc)"
proof -
  let ?as = "nfa_alphabet N"
  define start where "start = subset_start N"
  define c where "c = explore N start"
  let ?H = "states_handled c"
  let ?en = "enumerate 0 ?H"
  let ?m = "dfa_state_int_mapping c"
  let ?rev = "dfa_state_int_mapping_reverse c"
  have ne: "start \<noteq> []"
    unfolding start_def subset_start_def by (rule get_epsilon_closure_nonempty)
  note F = explore_facts [OF d ne c_def]
  have fec: "found_empty c"
    using fe by (simp add: reject_reached_def c_def start_def)
  have asne: "?as \<noteq> []" using fec F(7) by auto
  have keys1: "1 \<notin> fst ` set (conv_transition_function c)"
    unfolding F(1) by auto
  let ?tail = "[(1, cells (\<lambda>a. 1) ?as)] :: (int \<times> (pystr \<times> 'a cell) list) list"
  define c' where "c' = nfa_conversion N start"
  have c': "c' = c\<lparr>conv_transition_function := conv_transition_function c @ ?tail\<rparr>"
    using fec foldl_reject_loop [OF keys1 d asne]
    by (simp add: c'_def nfa_conversion_def c_def [symmetric] Let_def cells_def)
  have tf': "conv_transition_function c' = map (\<lambda>(i, S). (int i + 2, row N S)) ?en @ ?tail"
    by (simp add: c' F(1))
  have m': "dfa_state_int_mapping c' = ?m" and rev': "dfa_state_int_mapping_reverse c' = ?rev"
    and n': "conv_number_of_states c' = int (length ?H) + 1" and st': "conv_start_state c' = 2"
    using F(4,5) by (simp_all add: c')
  have cond: "\<forall>(i, S)\<in>set ?en.
           map_of (dfa_state_int_mapping_reverse c') (int i + 2) = Some S \<and> S \<noteq> []
           \<and> (\<forall>a\<in>set ?as. \<exists>v. fs_lookup (dfa_state_int_mapping c') (dest_states N S a) = Some v)
           \<and> int i + 2 \<notin> fst ` set [] \<and> int i + 2 \<notin> set []"
  proof (clarify, intro conjI)
    fix i S assume iS: "(i, S) \<in> set ?en"
    with F(2) show "map_of (dfa_state_int_mapping_reverse c') (int i + 2) = Some S" "S \<noteq> []"
      unfolding rev' by auto
    from iS have S: "S \<in> set ?H" by (auto dest: in_enumerate_less)
    show "\<forall>a\<in>set ?as. \<exists>v. fs_lookup (dfa_state_int_mapping c') (dest_states N S a) = Some v"
      unfolding m' using explore_lookup [OF d ne c_def S] by fastforce
  qed simp_all
  have den: "distinct (map fst ?en)" by simp
  let ?acclist = "map (\<lambda>(i, S). int i + 2)
                    (filter (\<lambda>(i, S). list_ex (\<lambda>q. q \<in> set acc) S) ?en)"
  from finalize_fold [OF acc d den cond, of ?tail] have fold1:
    "fold_err (finalize_state N c')
           (map (\<lambda>(i, S). (int i + 2, row N S)) ?en @ ?tail, [])
           (map (\<lambda>(i, S). int i + 2) ?en)
     = Inr (map (\<lambda>(i, S). (int i + 2, crow ?m N S)) ?en @ ?tail, ?acclist)"
    by (simp add: m')
  have keys: "map fst (conv_transition_function c') = map (\<lambda>(i, S). int i + 2) ?en @ [1]"
    by (simp add: tf' case_prod_unfold comp_def)
  have rej: "finalize_state N c' (tf, accept) 1 = Inr (tf, accept)" for tf accept
    by (rule finalize_state_reject) (simp add: rev' F(3))
  define kgs where "kgs = map (\<lambda>(i, S). (int i + 2, \<lambda>a. the (fs_lookup ?m (dest_states N S a)))) ?en
                          @ [(1, \<lambda>a. 1)]"
  have ct: "map (\<lambda>(i, S). (int i + 2, crow ?m N S)) ?en @ ?tail = cell_table ?as kgs"
    by (simp add: kgs_def cell_table_def crow_def cells_def case_prod_unfold comp_def)
  have fold: "fold_err (finalize_state N c') (conv_transition_function c', [])
                (map fst (conv_transition_function c'))
              = Inr (cell_table ?as kgs, ?acclist)"
  proof -
    have "fold_err (finalize_state N c') (conv_transition_function c', [])
            (map fst (conv_transition_function c'))
          = fold_err (finalize_state N c')
              (map (\<lambda>(i, S). (int i + 2, row N S)) ?en @ ?tail, [])
              (map (\<lambda>(i, S). int i + 2) ?en @ [1])"
      by (subst keys) (simp only: tf')
    also have "\<dots> = Inr (map (\<lambda>(i, S). (int i + 2, crow ?m N S)) ?en @ ?tail, ?acclist)"
      by (simp only: fold_err_append fold1 sum.case) (simp add: rej)
    finally show ?thesis by (simp only: ct)
  qed
  have has1: "1 \<in> fst ` set kgs"
    by (simp add: kgs_def image_Un)
  have fin: "finalize_dfa N c'
     = Inr \<lparr>dfa_alphabet = ?as, dfa_number_of_states = int (length ?H) + 1,
            dfa_transition_function = int_table ?as kgs,
            dfa_start_state = 2, dfa_accept_states = ?acclist\<rparr>"
    unfolding finalize_dfa_def fold using has1 by (simp add: read_table n' st' keys_cell_table)
  have off: "state_offset N = 1" using fe by (simp add: state_offset_def)
  have H: "subset_states N = ?H" by (simp add: subset_states_def c_def start_def)
  have rows: "built_rows N = kgs"
    unfolding built_rows_def kgs_def H off target_id_def
    using fe by (auto simp: c_def start_def)
  have "to_DFA N = finalize_dfa N c'"
    by (simp add: to_DFA_def c'_def start_def subset_start_def Let_def)
  also have "\<dots> = Inr (built_dfa N acc)"
    unfolding fin built_dfa_def rows H off by simp
  finally show ?thesis .
qed

lemma to_DFA_built_plain:
  assumes d: "distinct (nfa_alphabet N)" and acc: "nfa_accept_states N = Some acc"
    and fe: "\<not> reject_reached N"
  shows "to_DFA N = Inr (built_dfa N acc)"
proof -
  let ?as = "nfa_alphabet N"
  define start where "start = subset_start N"
  define c where "c = explore N start"
  let ?H = "states_handled c"
  let ?en = "enumerate 0 ?H"
  let ?m = "dfa_state_int_mapping c"
  let ?rev = "dfa_state_int_mapping_reverse c"
  have ne: "start \<noteq> []"
    unfolding start_def subset_start_def by (rule get_epsilon_closure_nonempty)
  note F = explore_facts [OF d ne c_def]
  have fec: "\<not> found_empty c"
    using fe by (simp add: reject_reached_def c_def start_def)
  define c' where "c' = nfa_conversion N start"
  have c': "c' = c\<lparr>dfa_state_int_mapping := fs_delete ?m [],
                    dfa_state_int_mapping_reverse := dict_delete ?rev 1,
                    conv_number_of_states := conv_number_of_states c - 1,
                    conv_start_state := conv_start_state c - 1\<rparr>"
    using fec by (simp add: c'_def nfa_conversion_def c_def [symmetric] Let_def)
  have tf': "conv_transition_function c' = map (\<lambda>(i, S). (int i + 2, row N S)) ?en"
    by (simp add: c' F(1))
  have m': "dfa_state_int_mapping c' = fs_delete ?m []"
    and rev': "dfa_state_int_mapping_reverse c' = dict_delete ?rev 1"
    and n': "conv_number_of_states c' = int (length ?H)" and st': "conv_start_state c' = 1"
    using F(4,5) by (simp_all add: c')
  have dest: "dest_states N S a \<noteq> []" if "S \<in> set ?H" "a \<in> set ?as" for S a
    using fec F(7) that by blast
  have look: "fs_lookup (fs_delete ?m []) (dest_states N S a) = fs_lookup ?m (dest_states N S a)"
    if "S \<in> set ?H" "a \<in> set ?as" for S a
    using dest [OF that] by (simp add: fs_lookup_fs_delete)
  have cond: "\<forall>(i, S)\<in>set ?en.
           map_of (dfa_state_int_mapping_reverse c') (int i + 2) = Some S \<and> S \<noteq> []
           \<and> (\<forall>a\<in>set ?as. \<exists>v. fs_lookup (dfa_state_int_mapping c') (dest_states N S a) = Some v)
           \<and> int i + 2 \<notin> fst ` set [] \<and> int i + 2 \<notin> set []"
  proof (clarify, intro conjI)
    fix i S assume iS: "(i, S) \<in> set ?en"
    with F(2) show "map_of (dfa_state_int_mapping_reverse c') (int i + 2) = Some S" "S \<noteq> []"
      unfolding rev' by (auto simp: map_of_dict_delete)
    from iS have S: "S \<in> set ?H" by (auto dest: in_enumerate_less)
    show "\<forall>a\<in>set ?as. \<exists>v. fs_lookup (dfa_state_int_mapping c') (dest_states N S a) = Some v"
    proof
      fix a assume a: "a \<in> set ?as"
      from explore_lookup [OF d ne c_def S a] dest [OF S a]
      have "\<exists>v. fs_lookup ?m (dest_states N S a) = Some v" by fastforce
      then show "\<exists>v. fs_lookup (dfa_state_int_mapping c') (dest_states N S a) = Some v"
        unfolding m' by (simp add: look [OF S a])
    qed
  qed simp_all
  have den: "distinct (map fst ?en)" by simp
  let ?acclist = "map (\<lambda>(i, S). int i + 2)
                    (filter (\<lambda>(i, S). list_ex (\<lambda>q. q \<in> set acc) S) ?en)"
  from finalize_fold [OF acc d den cond, of "[]"] have fold1:
    "fold_err (finalize_state N c')
           (map (\<lambda>(i, S). (int i + 2, row N S)) ?en, [])
           (map (\<lambda>(i, S). int i + 2) ?en)
     = Inr (map (\<lambda>(i, S). (int i + 2, crow (fs_delete ?m []) N S)) ?en, ?acclist)"
    by (simp add: m')
  have keys: "map fst (conv_transition_function c') = map (\<lambda>(i, S). int i + 2) ?en"
    by (simp add: tf' case_prod_unfold comp_def)
  define kgs where "kgs = map (\<lambda>(i, S). (int i + 2, \<lambda>a. the (fs_lookup ?m (dest_states N S a)))) ?en"
  have crow_eq: "crow (fs_delete ?m []) N S = crow ?m N S" if "S \<in> set ?H" for S
    unfolding crow_def using look [OF that] by simp
  have ct: "map (\<lambda>(i, S). (int i + 2, crow (fs_delete ?m []) N S)) ?en = cell_table ?as kgs"
  proof -
    have "(int i + 2, crow (fs_delete ?m []) N S)
          = (int i + 2, cells (\<lambda>a. the (fs_lookup ?m (dest_states N S a))) ?as)"
      if "(i, S) \<in> set ?en" for i S
    proof -
      from that have "S \<in> set ?H" by (auto dest: in_enumerate_less)
      then show ?thesis by (simp add: crow_eq) (simp add: crow_def cells_def)
    qed
    then show ?thesis
      unfolding kgs_def cell_table_def by (auto simp: case_prod_unfold)
  qed
  have fold: "fold_err (finalize_state N c') (conv_transition_function c', [])
                (map fst (conv_transition_function c'))
              = Inr (cell_table ?as kgs, ?acclist)"
  proof -
    have "fold_err (finalize_state N c') (conv_transition_function c', [])
            (map fst (conv_transition_function c'))
          = fold_err (finalize_state N c')
              (map (\<lambda>(i, S). (int i + 2, row N S)) ?en, [])
              (map (\<lambda>(i, S). int i + 2) ?en)"
      by (subst keys) (simp only: tf')
    then show ?thesis by (simp only: fold1 ct)
  qed
  have no1: "1 \<notin> fst ` set kgs"
    by (auto simp: kgs_def)
  have dk: "distinct (map fst kgs)"
    using distinct_enumerate_keys [of 2 ?H] by (simp add: kgs_def case_prod_unfold comp_def)
  have dacc: "distinct ?acclist"
    using distinct_enumerate_keys [of 2 ?H]
    by (simp add: distinct_map_filter case_prod_unfold comp_def)
  have fin: "finalize_dfa N c'
     = Inr \<lparr>dfa_alphabet = ?as, dfa_number_of_states = int (length ?H),
            dfa_transition_function
              = int_table ?as (map (\<lambda>kg. (fst kg - 1, \<lambda>a. snd kg a - 1)) kgs),
            dfa_start_state = 1, dfa_accept_states = map (\<lambda>s. s - 1) ?acclist\<rparr>"
    unfolding finalize_dfa_def fold using no1
    by (simp add: read_table n' st' keys_cell_table shift_table [OF d dk] shift_keys [OF dacc])
  have off: "state_offset N = 0" using fe by (simp add: state_offset_def)
  have H: "subset_states N = ?H" by (simp add: subset_states_def c_def start_def)
  have rows: "built_rows N = map (\<lambda>kg. (fst kg - 1, \<lambda>a. snd kg a - 1)) kgs"
    unfolding built_rows_def kgs_def H off target_id_def
    using fe by (auto simp: c_def start_def)
  have accs: "map (\<lambda>s. s - 1) ?acclist
              = map (\<lambda>(i, S). int i + 1 + state_offset N)
                  (filter (\<lambda>(i, S). list_ex (\<lambda>q. q \<in> set acc) S) ?en)"
    unfolding off by auto
  have "to_DFA N = finalize_dfa N c'"
    by (simp add: to_DFA_def c'_def start_def subset_start_def Let_def)
  also have "\<dots> = Inr (built_dfa N acc)"
    unfolding fin built_dfa_def rows H accs by (simp add: off)
  finally show ?thesis .
qed

lemma to_DFA_built:
  assumes "distinct (nfa_alphabet N)" and "nfa_accept_states N = Some acc"
  shows "to_DFA N = Inr (built_dfa N acc)"
  using to_DFA_built_reject [OF assms] to_DFA_built_plain [OF assms] by blast

lemma enumerate_ids:
  "(\<lambda>(i, S). int i + k) ` set (enumerate 0 xs) = {k ..< k + int (length xs)}"
proof (intro set_eqI iffI)
  fix x assume "x \<in> (\<lambda>(i, S). int i + k) ` set (enumerate 0 xs)"
  then show "x \<in> {k ..< k + int (length xs)}"
    by (auto simp: in_set_enumerate_eq)
next
  fix x assume x: "x \<in> {k ..< k + int (length xs)}"
  then have "nat (x - k) < length xs" by auto
  then have "(nat (x - k), xs ! nat (x - k)) \<in> set (enumerate 0 xs)"
    by (simp add: in_set_enumerate_eq)
  moreover have "x = int (nat (x - k)) + k" using x by auto
  ultimately show "x \<in> (\<lambda>(i, S). int i + k) ` set (enumerate 0 xs)"
    by (metis (mono_tags, lifting) case_prod_conv image_eqI)
qed

lemma built_keys:
  "map fst (built_rows N)
     = map (\<lambda>(i, S). int i + (1 + state_offset N)) (enumerate 0 (subset_states N))
       @ (if reject_reached N then [1] else [])"
  by (simp add: built_rows_def case_prod_unfold comp_def add.assoc)

lemma built_keys_distinct: "distinct (map fst (built_rows N))"
  unfolding built_keys using distinct_enumerate_keys [of "1 + state_offset N" "subset_states N"]
  by (auto simp: state_offset_def)

lemma built_keys_set:
  "set (map fst (built_rows N)) = {1 .. int (length (subset_states N)) + state_offset N}"
  unfolding built_keys using enumerate_ids [of "1 + state_offset N" "subset_states N"]
  by (auto simp: state_offset_def)

lemma built_row_state:
  assumes "i < length (subset_states N)"
  shows "(state_id N i, \<lambda>a. target_id N (dest_states N (subset_states N ! i) a))
           \<in> set (built_rows N)"
proof -
  from assms have "(i, subset_states N ! i) \<in> set (enumerate 0 (subset_states N))"
    by (simp add: in_set_enumerate_eq)
  then show ?thesis
    unfolding built_rows_def state_id_def by force
qed

lemma built_row_reject: "reject_reached N \<Longrightarrow> (1, \<lambda>a. 1) \<in> set (built_rows N)"
  by (simp add: built_rows_def)

lemma target_id_cases:
  assumes d: "distinct (nfa_alphabet N)"
    and i: "i < length (subset_states N)" and a: "a \<in> set (nfa_alphabet N)"
  shows "(dest_states N (subset_states N ! i) a = [] \<and> reject_reached N
            \<and> target_id N (dest_states N (subset_states N ! i) a) = 1)
       \<or> (dest_states N (subset_states N ! i) a \<noteq> []
            \<and> (\<exists>j<length (subset_states N).
                  same_set (subset_states N ! j) (dest_states N (subset_states N ! i) a)
                  \<and> target_id N (dest_states N (subset_states N ! i) a) = state_id N j))"
proof -
  define c where "c = explore N (subset_start N)"
  have ne: "subset_start N \<noteq> []"
    unfolding subset_start_def by (rule get_epsilon_closure_nonempty)
  have H: "subset_states N = states_handled c" by (simp add: subset_states_def c_def)
  from i have S: "subset_states N ! i \<in> set (states_handled c)" by (simp add: H)
  let ?T = "dest_states N (subset_states N ! i) a"
  from explore_lookup [OF d ne c_def S a]
  consider "?T = []" "found_empty c" "fs_lookup (dfa_state_int_mapping c) ?T = Some 1"
    | j S' where "?T \<noteq> []" "(j, S') \<in> set (enumerate 0 (states_handled c))"
        "same_set S' ?T" "fs_lookup (dfa_state_int_mapping c) ?T = Some (int j + 2)"
    by blast
  then show ?thesis
  proof cases
    case 1
    then show ?thesis
      by (simp add: target_id_def state_offset_def reject_reached_def c_def [symmetric])
  next
    case 2
    from 2(2) have "j < length (subset_states N)" "S' = subset_states N ! j"
      by (simp_all add: in_set_enumerate_eq H)
    with 2 show ?thesis
      by (auto simp: target_id_def state_id_def c_def [symmetric])
  qed
qed

lemma transition_built_state:
  assumes d: "distinct (nfa_alphabet N)"
    and i: "i < length (subset_states N)" and a: "a \<in> set (nfa_alphabet N)"
  shows "transition (built_dfa N acc) (state_id N i) a
           = Inr (target_id N (dest_states N (subset_states N ! i) a))"
  using table_get_int_table [OF built_keys_distinct built_row_state [OF i] a]
  by (simp add: transition_def built_dfa_def)

lemma transition_built_reject:
  assumes "reject_reached N" and a: "a \<in> set (nfa_alphabet N)"
  shows "transition (built_dfa N acc) 1 a = Inr 1"
  using table_get_int_table [OF built_keys_distinct built_row_reject [OF assms(1)] a]
  by (simp add: transition_def built_dfa_def)

lemma transition_built_outside:
  "a \<notin> set (nfa_alphabet N) \<Longrightarrow> transition (built_dfa N acc) s a = Inl KeyError"
  by (simp add: transition_def built_dfa_def table_get_int_table_None)

lemma reject_reached_iff:
  assumes d: "distinct (nfa_alphabet N)"
  shows "reject_reached N \<longleftrightarrow>
           (\<exists>S\<in>set (subset_states N). \<exists>a\<in>set (nfa_alphabet N). dest_states N S a = [])"
proof -
  have ne: "subset_start N \<noteq> []"
    unfolding subset_start_def by (rule get_epsilon_closure_nonempty)
  show ?thesis
    using explore_facts(7) [OF d ne refl] by (simp add: reject_reached_def subset_states_def)
qed

lemma state_id_range:
  "i < length (subset_states N) \<Longrightarrow>
     1 \<le> state_id N i \<and> state_id N i \<le> int (length (subset_states N)) + state_offset N"
  by (simp add: state_id_def state_offset_def)

lemma state_cases:
  assumes "1 \<le> s" "s \<le> int (length (subset_states N)) + state_offset N"
  shows "(reject_reached N \<and> s = 1) \<or> (\<exists>i<length (subset_states N). s = state_id N i)"
proof (cases "reject_reached N \<and> s = 1")
  case True
  then show ?thesis by simp
next
  case False
  with assms have "nat (s - 1 - state_offset N) < length (subset_states N)"
    "s = state_id N (nat (s - 1 - state_offset N))"
    by (auto simp: state_offset_def state_id_def split: if_splits)
  then show ?thesis by blast
qed

lemma built_total:
  assumes d: "distinct (nfa_alphabet N)"
    and s: "1 \<le> s" "s \<le> int (length (subset_states N)) + state_offset N"
    and a: "a \<in> set (nfa_alphabet N)"
  shows "\<exists>t. transition (built_dfa N acc) s a = Inr t
            \<and> 1 \<le> t \<and> t \<le> int (length (subset_states N)) + state_offset N"
proof -
  from state_cases [OF s]
  consider "reject_reached N" "s = 1" | i where "i < length (subset_states N)" "s = state_id N i"
    by blast
  then show ?thesis
  proof cases
    case 1
    then show ?thesis
      using transition_built_reject [OF 1(1) a, of acc] by (simp add: state_offset_def)
  next
    case 2
    from target_id_cases [OF d 2(1) a]
    have "1 \<le> target_id N (dest_states N (subset_states N ! i) a)
          \<and> target_id N (dest_states N (subset_states N ! i) a)
              \<le> int (length (subset_states N)) + state_offset N"
    proof (elim disjE conjE exE)
      assume "reject_reached N" "target_id N (dest_states N (subset_states N ! i) a) = 1"
      then show ?thesis by (simp add: state_offset_def)
    next
      fix j assume "j < length (subset_states N)"
        "target_id N (dest_states N (subset_states N ! i) a) = state_id N j"
      then show ?thesis using state_id_range [of j N] by simp
    qed
    then show ?thesis
      using transition_built_state [OF d 2(1) a, of acc] 2(2) by simp
  qed
qed

lemma built_accept:
  "set (dfa_accept_states (built_dfa N acc))
     = {state_id N i | i. i < length (subset_states N)
                          \<and> (\<exists>q\<in>set (subset_states N ! i). q \<in> set acc)}"
  by (auto simp: built_dfa_def state_id_def in_set_enumerate_eq list_ex_iff image_iff)

lemma construction_ids:
  assumes d: "distinct (nfa_alphabet N)" and i: "i < length (subset_states N)"
  shows "construction_id N (subset_states N ! i) = Some (int i + 2)"
proof -
  have ne: "subset_start N \<noteq> []"
    unfolding subset_start_def by (rule get_epsilon_closure_nonempty)
  from conv_inv_explore [OF d ne]
  have "\<forall>(i, S)\<in>set (enumerate 0 (subset_states N)). construction_id N S = Some (int i + 2)"
    unfolding conv_inv_def subset_states_def construction_id_def by blast
  moreover from i have "(i, subset_states N ! i) \<in> set (enumerate 0 (subset_states N))"
    by (simp add: in_set_enumerate_eq)
  ultimately show ?thesis by blast
qed

lemma subset_states_distinct:
  assumes d: "distinct (nfa_alphabet N)"
  shows "distinct (map set (subset_states N)) \<and> [] \<notin> set (subset_states N)
         \<and> subset_states N \<noteq> [] \<and> hd (subset_states N) = subset_start N"
proof -
  have ne: "subset_start N \<noteq> []"
    unfolding subset_start_def by (rule get_epsilon_closure_nonempty)
  from conv_inv_explore [OF d ne]
  have "distinct (map set (subset_states N))" "[] \<notin> set (subset_states N)"
    unfolding conv_inv_def subset_states_def by blast+
  moreover from explore_facts(6,8) [OF d ne refl]
  have "subset_states N \<noteq> []" "hd (subset_states N) = subset_start N"
    by (simp_all add: subset_states_def)
  ultimately show ?thesis by blast
qed

lemma built_keys_table:
  "map fst (dfa_transition_function (built_dfa N acc)) = map fst (built_rows N)"
  by (simp add: built_dfa_def int_table_def comp_def)

subsection \<open>The runs of to\_DFA that raise\<close>

text \<open>
  A symbol that the alphabet repeats is converted twice in the row of the start set: the
  second time the value found is an \<open>int\<close>, the key of no entry of the mapping.
\<close>

lemma convert_symbol_Inr:
  "convert_symbol m entry x = Inr entry' \<Longrightarrow>
     (\<exists>T. map_of entry x = Some (FrozenSet T)) \<and> (\<exists>v. entry' = dict_set entry x (IntState v))"
  by (auto simp: convert_symbol_def split: option.splits cell.splits)

lemma convert_again:
  assumes "a \<in> set as" and "\<forall>T. map_of entry a \<noteq> Some (FrozenSet T)"
  shows "\<exists>e. fold_err (convert_symbol m) entry as = Inl e"
  using assms
proof (induction as arbitrary: entry)
  case Nil
  then show ?case by simp
next
  case (Cons x xs)
  show ?case
  proof (cases "convert_symbol m entry x")
    case (Inl e)
    then show ?thesis by simp
  next
    case (Inr entry')
    from convert_symbol_Inr [OF Inr] obtain T v
      where x: "map_of entry x = Some (FrozenSet T)" and e': "entry' = dict_set entry x (IntState v)"
      by blast
    from x Cons.prems(2) have "x \<noteq> a" by auto
    with Cons.prems have "a \<in> set xs" "\<forall>T. map_of entry' a \<noteq> Some (FrozenSet T)"
      by (auto simp: e' map_of_dict_set)
    from Cons.IH [OF this] Inr show ?thesis by simp
  qed
qed

lemma convert_duplicate:
  assumes "\<not> distinct as"
  shows "\<exists>e. fold_err (convert_symbol m) entry as = Inl e"
  using assms
proof (induction as arbitrary: entry)
  case Nil
  then show ?case by simp
next
  case (Cons x xs)
  show ?case
  proof (cases "convert_symbol m entry x")
    case (Inl e)
    then show ?thesis by simp
  next
    case (Inr entry')
    from convert_symbol_Inr [OF Inr] obtain v
      where e': "entry' = dict_set entry x (IntState v)"
      by blast
    show ?thesis
    proof (cases "x \<in> set xs")
      case True
      have "\<forall>T. map_of entry' x \<noteq> Some (FrozenSet T)" by (simp add: e' map_of_dict_set)
      from convert_again [OF True this] Inr show ?thesis by simp
    next
      case False
      with Cons.prems have "\<not> distinct xs" by simp
      from Cons.IH [OF this] Inr show ?thesis by simp
    qed
  qed
qed

lemma hd_dict_set: "d \<noteq> [] \<Longrightarrow> fst (hd (dict_set d k v)) = fst (hd d)"
  by (cases d) auto

lemma dict_set_not_Nil [simp]: "dict_set d k v \<noteq> []"
  by (cases d) auto

lemma head_inv_init: "head_inv start [start] (initial_conversion start)"
  by (simp add: head_inv_def initial_conversion_def generate_int_mapping_def
      generate_int_mapping_reverse_def fs_lookup_fs_set map_of_dict_set)

lemma head_inv_step:
  assumes "head_inv start (S # queue) c"
  shows "head_inv start queue' (record_state S t fe c)"
proof (cases "conv_transition_function c = []")
  case True
  with assms have "S = start" "fs_lookup (dfa_state_int_mapping c) S = Some 2"
    "map_of (dfa_state_int_mapping_reverse c) 2 = Some start" "2 \<le> next_state_id c"
    by (simp_all add: head_inv_def)
  then show ?thesis
    by (simp add: head_inv_def record_state_def Let_def True)
next
  case False
  with assms have h: "fst (hd (conv_transition_function c)) = 2" "3 \<le> next_state_id c"
    "map_of (dfa_state_int_mapping_reverse c) 2 = Some start"
    by (simp_all add: head_inv_def)
  then show ?thesis
    using False
    by (cases "fs_lookup (dfa_state_int_mapping c) S")
       (simp_all add: head_inv_def record_state_def Let_def hd_dict_set map_of_dict_set)
qed

lemma head_inv_loop:
  "head_inv start queue c \<Longrightarrow> head_inv start [] (conversion_loop N queue c)"
proof (induction N queue c rule: conversion_loop.induct)
  case (1 N c)
  then show ?case by simp
next
  case (2 N S queue c)
  show ?case
  proof (cases "list_ex (same_set S) (states_handled c)")
    case True
    with "2.prems" have "conv_transition_function c \<noteq> []"
      by (auto simp: head_inv_def)
    with "2.prems" have "head_inv start queue c" by (simp add: head_inv_def)
    from "2.IH"(1) [OF True this] True show ?thesis by simp
  next
    case False
    define r where "r = scan_alphabet N S queue (found_empty c)"
    have "head_inv start (fst (snd r)) (record_state S (fst r) (snd (snd r)) c)"
      by (rule head_inv_step [OF "2.prems"])
    from "2.IH"(2) [OF False r_def this] False show ?thesis
      by (simp add: r_def Let_def)
  qed
qed

lemma head_explore:
  "conv_transition_function (explore N start) \<noteq> []
     \<and> fst (hd (conv_transition_function (explore N start))) = 2
     \<and> map_of (dfa_state_int_mapping_reverse (explore N start)) 2 = Some start"
  using head_inv_loop [OF head_inv_init, of start N]
  by (auto simp: explore_def head_inv_def split: if_splits)

lemma reject_loop_head:
  "tf \<noteq> [] \<Longrightarrow> reject_loop tf a \<noteq> [] \<and> fst (hd (reject_loop tf a)) = fst (hd tf)"
  by (simp add: reject_loop_def hd_dict_set split: option.splits)

lemma foldl_reject_loop_head:
  "tf \<noteq> [] \<Longrightarrow> foldl reject_loop tf as \<noteq> [] \<and> fst (hd (foldl reject_loop tf as)) = fst (hd tf)"
proof (induction as arbitrary: tf)
  case Nil
  then show ?case by simp
next
  case (Cons a as)
  from reject_loop_head [OF Cons.prems, of a] Cons.IH [of "reject_loop tf a"]
  show ?case by simp
qed

lemma head_nfa_conversion:
  "conv_transition_function (nfa_conversion N start) \<noteq> []
     \<and> fst (hd (conv_transition_function (nfa_conversion N start))) = 2
     \<and> map_of (dfa_state_int_mapping_reverse (nfa_conversion N start)) 2 = Some start"
  using head_explore [of N start]
    foldl_reject_loop_head [of "conv_transition_function (explore N start)" "nfa_alphabet N"]
  by (simp add: nfa_conversion_def Let_def map_of_dict_delete)

lemma finalize_state_fails:
  assumes rev: "map_of (dfa_state_int_mapping_reverse c) 2 = Some start" and ne: "start \<noteq> []"
    and bad: "\<not> distinct (nfa_alphabet N) \<or> nfa_accept_states N = None"
  shows "\<exists>e. finalize_state N c acc 2 = Inl e"
proof (cases "nfa_accept_states N")
  case None
  then show ?thesis
    using rev ne by (simp add: finalize_state_def accept_check_def)
next
  case (Some a)
  with bad have nd: "\<not> distinct (nfa_alphabet N)" by simp
  show ?thesis
  proof (cases "map_of (fst acc) 2")
    case None
    then show ?thesis
      using rev ne Some by (simp add: finalize_state_def accept_check_def Let_def)
  next
    case (Some entry)
    from convert_duplicate [OF nd, of "dfa_state_int_mapping c" entry]
    obtain e where "fold_err (convert_symbol (dfa_state_int_mapping c)) entry (nfa_alphabet N) = Inl e"
      by blast
    then show ?thesis
      using rev ne Some \<open>nfa_accept_states N = Some a\<close>
      by (simp add: finalize_state_def accept_check_def Let_def)
  qed
qed

lemma finalize_dfa_fails:
  assumes tf: "conv_transition_function c \<noteq> []" "fst (hd (conv_transition_function c)) = 2"
    and rev: "map_of (dfa_state_int_mapping_reverse c) 2 = Some start" and ne: "start \<noteq> []"
    and bad: "\<not> distinct (nfa_alphabet N) \<or> nfa_accept_states N = None"
  shows "\<exists>e. finalize_dfa N c = Inl e"
proof -
  from tf obtain rest where keys: "map fst (conv_transition_function c) = 2 # rest"
    by (cases "conv_transition_function c") auto
  from finalize_state_fails [OF rev ne bad, of "(conv_transition_function c, [])"]
  obtain e where "finalize_state N c (conv_transition_function c, []) 2 = Inl e" by blast
  then show ?thesis
    unfolding finalize_dfa_def keys by simp
qed

lemma to_DFA_fails:
  assumes "\<not> distinct (nfa_alphabet N) \<or> nfa_accept_states N = None"
  shows "\<exists>e. to_DFA N = Inl e"
proof -
  have ne: "get_epsilon_closure N (nfa_start_state N) \<noteq> []"
    by (rule get_epsilon_closure_nonempty)
  from head_nfa_conversion [of N "get_epsilon_closure N (nfa_start_state N)"]
  show ?thesis
    unfolding to_DFA_def Let_def
    by (intro finalize_dfa_fails [OF _ _ _ ne assms]) simp_all
qed

lemma to_DFA_Inr:
  assumes "to_DFA N = Inr D"
  shows "distinct (nfa_alphabet N) \<and> (\<exists>acc. nfa_accept_states N = Some acc \<and> D = built_dfa N acc)"
proof -
  have "\<not> (\<not> distinct (nfa_alphabet N) \<or> nfa_accept_states N = None)"
  proof
    assume "\<not> distinct (nfa_alphabet N) \<or> nfa_accept_states N = None"
    from to_DFA_fails [OF this] assms show False by simp
  qed
  then have d: "distinct (nfa_alphabet N)" and "nfa_accept_states N \<noteq> None" by simp_all
  then obtain acc where acc: "nfa_accept_states N = Some acc" by auto
  from to_DFA_built [OF d acc] assms have "D = built_dfa N acc" by simp
  with d acc show ?thesis by simp
qed

subsection \<open>State ids and totality\<close>

lemma finalize_state_TypeError:
  assumes rev: "map_of (dfa_state_int_mapping_reverse c) 2 = Some start" and ne: "start \<noteq> []"
    and none: "nfa_accept_states N = None"
  shows "finalize_state N c acc 2 = Inl TypeError"
  using assms by (simp add: finalize_state_def accept_check_def)

text \<open>
  Claim C5 says that \<open>to_DFA\<close> produces, for every NFA, a DFA with the states
  \<open>1..number_of_states\<close> and a total transition function.
  \<open>_extract_nfa_data_from_file\<close> stores \<open>None\<close> as the accept states of an NFA
  whose line of accept states is empty. For every such NFA \<open>to_DFA\<close> raises TypeError
  and produces no DFA: the first state that \<open>_finalize_dfa\<close> visits is the state of
  the epsilon closure of the start state, a set that is not empty, and
  \<open>nfa_state in self.accept_states\<close> tests the membership in \<open>None\<close>.
\<close>

theorem to_DFA_accept_states_None:
  assumes "nfa_accept_states N = None"
  shows "to_DFA N = Inl TypeError"
proof -
  let ?start = "get_epsilon_closure N (nfa_start_state N)"
  let ?c = "nfa_conversion N ?start"
  have ne: "?start \<noteq> []"
    by (rule get_epsilon_closure_nonempty)
  from head_nfa_conversion [of N ?start]
  have tf: "conv_transition_function ?c \<noteq> []" "fst (hd (conv_transition_function ?c)) = 2"
    and rev: "map_of (dfa_state_int_mapping_reverse ?c) 2 = Some ?start"
    by simp_all
  from tf obtain rest where keys: "map fst (conv_transition_function ?c) = 2 # rest"
    by (cases "conv_transition_function ?c") auto
  have "finalize_dfa N ?c = Inl TypeError"
    unfolding finalize_dfa_def keys
    by (simp add: finalize_state_TypeError [OF rev ne assms])
  then show ?thesis by (simp add: to_DFA_def Let_def)
qed

text \<open>
  The NFA of a description file with the states 1 and 2, the transition from 1 to 2 on
  \<open>a\<close>, the start state 1 and an empty line of accept states.
\<close>

theorem to_DFA_accept_states_None_witness:
  "to_DFA \<lparr>nfa_alphabet = [py ''a''], nfa_number_of_states = 2,
            nfa_transition_function = [(py ''1'', [(py ''a'', [py ''2''])])],
            nfa_start_state = py ''1'', nfa_accept_states = None\<rparr> = Inl TypeError"
  using to_DFA_accept_states_None
          [of "\<lparr>nfa_alphabet = [py ''a''], nfa_number_of_states = 2,
                nfa_transition_function = [(py ''1'', [(py ''a'', [py ''2''])])],
                nfa_start_state = py ''1'', nfa_accept_states = None\<rparr>"]
  by simp

text \<open>
  An NFA whose alphabet repeats a symbol has no DFA either: \<open>_finalize_dfa\<close> raises
  KeyError.
\<close>

lemma to_DFA_repeated_symbol:
  "to_DFA \<lparr>nfa_alphabet = [py ''a'', py ''a''], nfa_number_of_states = 2,
            nfa_transition_function = [(1 :: int, [(py ''a'', [2])])],
            nfa_start_state = 1, nfa_accept_states = Some [2]\<rparr> = Inl KeyError"
  by (simp add: nfa_eval py_def)

text \<open>
  For an NFA whose accept states are set and whose alphabet repeats no symbol,
  \<open>to_DFA\<close> returns a DFA. Its states are the keys of its table, each
  once, and they are the integers from 1 to \<open>number_of_states\<close>; the transition
  function is total on these states and the alphabet, with its values among them. The
  sets that the loop handles are non-empty and pairwise different, the first is the
  epsilon closure of the start state, its state is the start state, and the accept
  states are the states of the sets that hold an accept state of the NFA. The state of
  a set goes on a symbol to state 1 when the destination set is empty, and to the state
  of the handled set with the elements of the destination set otherwise. When no
  destination is empty, state 1 is removed: the table has the sets alone, each under
  its id of the construction less one. When a destination is empty, the ids of the
  construction stay, and state 1 goes to itself on every symbol of the alphabet.
\<close>

theorem to_DFA_state_ids:
  assumes "distinct (nfa_alphabet N)" and "nfa_accept_states N = Some acc"
  shows "\<exists>D. to_DFA N = Inr D
     \<and> dfa_alphabet D = nfa_alphabet N
     \<and> dfa_number_of_states D
         = int (length (subset_states N)) + (if reject_reached N then 1 else 0)
     \<and> distinct (map fst (dfa_transition_function D))
     \<and> set (map fst (dfa_transition_function D)) = {1 .. dfa_number_of_states D}
     \<and> (\<forall>s\<in>{1 .. dfa_number_of_states D}. \<forall>a\<in>set (nfa_alphabet N).
           \<exists>t\<in>{1 .. dfa_number_of_states D}. transition D s a = Inr t)
     \<and> distinct (map set (subset_states N)) \<and> [] \<notin> set (subset_states N)
     \<and> subset_states N \<noteq> [] \<and> hd (subset_states N) = subset_start N
     \<and> dfa_start_state D = state_id N 0
     \<and> set (dfa_accept_states D)
         = {state_id N i | i. i < length (subset_states N)
                              \<and> (\<exists>q\<in>set (subset_states N ! i). q \<in> set acc)}
     \<and> (\<forall>i<length (subset_states N). \<forall>a\<in>set (nfa_alphabet N).
           (dest_states N (subset_states N ! i) a = [] \<and> reject_reached N
              \<and> transition D (state_id N i) a = Inr 1)
         \<or> (dest_states N (subset_states N ! i) a \<noteq> []
              \<and> (\<exists>j<length (subset_states N).
                    same_set (subset_states N ! j) (dest_states N (subset_states N ! i) a)
                    \<and> transition D (state_id N i) a = Inr (state_id N j))))
     \<and> (reject_reached N \<longleftrightarrow>
           (\<exists>S\<in>set (subset_states N). \<exists>a\<in>set (nfa_alphabet N). dest_states N S a = []))
     \<and> (\<not> reject_reached N \<longrightarrow>
           (\<forall>i<length (subset_states N).
              construction_id N (subset_states N ! i) = Some (state_id N i + 1)))
     \<and> (reject_reached N \<longrightarrow>
           (\<forall>i<length (subset_states N).
              construction_id N (subset_states N ! i) = Some (state_id N i))
           \<and> (\<forall>a\<in>set (nfa_alphabet N). transition D 1 a = Inr 1))"
proof -
  let ?D = "built_dfa N acc"
  let ?n = "int (length (subset_states N)) + (if reject_reached N then 1 else 0)"
  note d = assms(1)
  have n: "dfa_number_of_states ?D = ?n"
    by (simp add: built_dfa_def state_offset_def)
  have 1: "to_DFA N = Inr ?D" by (rule to_DFA_built [OF assms])
  have 2: "dfa_alphabet ?D = nfa_alphabet N" by (simp add: built_dfa_def)
  have 4: "distinct (map fst (dfa_transition_function ?D))"
    unfolding built_keys_table by (rule built_keys_distinct)
  have 5: "set (map fst (dfa_transition_function ?D)) = {1 .. dfa_number_of_states ?D}"
    unfolding built_keys_table built_keys_set by (simp add: built_dfa_def)
  have 6: "\<forall>s\<in>{1 .. dfa_number_of_states ?D}. \<forall>a\<in>set (nfa_alphabet N).
           \<exists>t\<in>{1 .. dfa_number_of_states ?D}. transition ?D s a = Inr t"
  proof (intro ballI)
    fix s a assume "s \<in> {1 .. dfa_number_of_states ?D}" and a: "a \<in> set (nfa_alphabet N)"
    then have s: "1 \<le> s" "s \<le> int (length (subset_states N)) + state_offset N"
      by (simp_all add: built_dfa_def)
    from built_total [OF d s a, of acc]
    show "\<exists>t\<in>{1 .. dfa_number_of_states ?D}. transition ?D s a = Inr t"
      by (auto simp: built_dfa_def)
  qed
  have 7: "dfa_start_state ?D = state_id N 0"
    by (simp add: built_dfa_def state_id_def)
  have 8: "set (dfa_accept_states ?D)
         = {state_id N i | i. i < length (subset_states N)
                              \<and> (\<exists>q\<in>set (subset_states N ! i). q \<in> set acc)}"
    by (rule built_accept)
  have 9: "\<forall>i<length (subset_states N). \<forall>a\<in>set (nfa_alphabet N).
           (dest_states N (subset_states N ! i) a = [] \<and> reject_reached N
              \<and> transition ?D (state_id N i) a = Inr 1)
         \<or> (dest_states N (subset_states N ! i) a \<noteq> []
              \<and> (\<exists>j<length (subset_states N).
                    same_set (subset_states N ! j) (dest_states N (subset_states N ! i) a)
                    \<and> transition ?D (state_id N i) a = Inr (state_id N j)))"
  proof (intro allI impI ballI)
    fix i a assume i: "i < length (subset_states N)" and a: "a \<in> set (nfa_alphabet N)"
    from target_id_cases [OF d i a] transition_built_state [OF d i a, of acc]
    show "(dest_states N (subset_states N ! i) a = [] \<and> reject_reached N
              \<and> transition ?D (state_id N i) a = Inr 1)
         \<or> (dest_states N (subset_states N ! i) a \<noteq> []
              \<and> (\<exists>j<length (subset_states N).
                    same_set (subset_states N ! j) (dest_states N (subset_states N ! i) a)
                    \<and> transition ?D (state_id N i) a = Inr (state_id N j)))"
      by auto
  qed
  have 10: "reject_reached N \<longleftrightarrow>
           (\<exists>S\<in>set (subset_states N). \<exists>a\<in>set (nfa_alphabet N). dest_states N S a = [])"
    by (rule reject_reached_iff [OF d])
  have 11: "\<not> reject_reached N \<longrightarrow>
           (\<forall>i<length (subset_states N).
              construction_id N (subset_states N ! i) = Some (state_id N i + 1))"
    using construction_ids [OF d] by (simp add: state_id_def state_offset_def)
  have 12: "reject_reached N \<longrightarrow>
           (\<forall>i<length (subset_states N).
              construction_id N (subset_states N ! i) = Some (state_id N i))
           \<and> (\<forall>a\<in>set (nfa_alphabet N). transition ?D 1 a = Inr 1)"
    using construction_ids [OF d] transition_built_reject [of N _ acc]
    by (simp add: state_id_def state_offset_def)
  note 13 = subset_states_distinct [OF d]
  from 1 2 n 4 5 6 7 8 9 10 11 12 13 show ?thesis by blast
qed

text \<open>
  The NFA of the expression \<open>a\<close>: the sets \<open>{1}\<close> and \<open>{2}\<close> are the states 2 and
  3, and state 1 stays.
\<close>

theorem to_DFA_state_ids_witness:
  "\<exists>D. to_DFA \<lparr>nfa_alphabet = [py ''a''], nfa_number_of_states = 2,
                 nfa_transition_function = [(1 :: int, [(py ''a'', [2])])],
                 nfa_start_state = 1, nfa_accept_states = Some [2]\<rparr> = Inr D
       \<and> dfa_number_of_states D = 3 \<and> dfa_start_state D = 2
       \<and> set (dfa_accept_states D) = {3}
       \<and> transition D 1 (py ''a'') = Inr 1"
proof -
  let ?N = "\<lparr>nfa_alphabet = [py ''a''], nfa_number_of_states = 2,
             nfa_transition_function = [(1 :: int, [(py ''a'', [2])])],
             nfa_start_state = 1, nfa_accept_states = Some [2]\<rparr>"
  have H: "subset_states ?N = [[1], [2]]"
    by (simp add: subset_states_def subset_start_def nfa_eval py_def)
  have R: "reject_reached ?N"
    by (simp add: reject_reached_def subset_start_def nfa_eval py_def)
  have d: "distinct (nfa_alphabet ?N)" and acc: "nfa_accept_states ?N = Some [2]"
    by simp_all
  from to_DFA_state_ids [OF d acc] obtain D where
    D: "to_DFA ?N = Inr D"
      "dfa_number_of_states D
         = int (length (subset_states ?N)) + (if reject_reached ?N then 1 else 0)"
      "dfa_start_state D = state_id ?N 0"
      "set (dfa_accept_states D)
         = {state_id ?N i | i. i < length (subset_states ?N)
                              \<and> (\<exists>q\<in>set (subset_states ?N ! i). q \<in> set [2])}"
      "reject_reached ?N \<longrightarrow>
           (\<forall>i<length (subset_states ?N).
              construction_id ?N (subset_states ?N ! i) = Some (state_id ?N i))
           \<and> (\<forall>a\<in>set (nfa_alphabet ?N). transition D 1 a = Inr 1)"
    by blast
  have ids: "{state_id ?N i | i. i < length (subset_states ?N)
                              \<and> (\<exists>q\<in>set (subset_states ?N ! i). q \<in> set [2])} = {3}"
    unfolding H using R by (auto simp: state_id_def state_offset_def less_Suc_eq)
  from D(2,3) H R have "dfa_number_of_states D = 3" "dfa_start_state D = 2"
    by (simp_all add: state_id_def state_offset_def)
  moreover from D(4) ids have "set (dfa_accept_states D) = {3}" by simp
  moreover from D(5) R have "transition D 1 (py ''a'') = Inr 1" by simp
  ultimately show ?thesis using D(1) by blast
qed

section \<open>The reject state\<close>

lemma simulate_from_append:
  "simulate_from D s (xs @ ys)
     = (case simulate_from D s xs of Inl e \<Rightarrow> Inl e | Inr t \<Rightarrow> simulate_from D t ys)"
  by (induction xs arbitrary: s) (auto split: sum.splits)

lemma simulate_from_absorbing:
  assumes "\<And>a. transition D r a = (if a \<in> set as then Inr r else Inl KeyError)"
  shows "simulate_from D r ys = (if \<forall>ch\<in>set ys. [ch] \<in> set as then Inr r else Inl KeyError)"
  by (induction ys) (simp_all add: assms)

text \<open>
  Claim C6. In a DFA that \<open>to_DFA\<close> returns with state 1 kept (a destination of the
  subset construction was empty), state 1 is no accept state and goes to itself on
  every symbol of the alphabet; a symbol outside the alphabet raises KeyError, in this
  state as in every other. So a simulation that has reached state 1 is in state 1
  after every further string over the alphabet, never in another state, and
  \<open>simulate\<close> answers \<open>False\<close>.
\<close>

theorem reject_state_absorbing:
  assumes "to_DFA N = Inr D" and "reject_reached N"
  shows "1 \<notin> set (dfa_accept_states D)
     \<and> (\<forall>a. transition D 1 a = (if a \<in> set (dfa_alphabet D) then Inr 1 else Inl KeyError))
     \<and> (\<forall>s xs ys. simulate_from D s xs = Inr 1 \<longrightarrow>
           simulate_from D s (xs @ ys)
             = (if \<forall>ch\<in>set ys. [ch] \<in> set (dfa_alphabet D) then Inr 1 else Inl KeyError))
     \<and> (\<forall>xs ys. simulate_from D (dfa_start_state D) xs = Inr 1 \<longrightarrow>
           simulate D (xs @ ys)
             = (if \<forall>ch\<in>set ys. [ch] \<in> set (dfa_alphabet D) then Inr False else Inl KeyError))"
proof -
  from to_DFA_Inr [OF assms(1)] obtain acc
    where d: "distinct (nfa_alphabet N)" and D: "D = built_dfa N acc"
    by blast
  have al: "dfa_alphabet D = nfa_alphabet N" by (simp add: D built_dfa_def)
  have 1: "1 \<notin> set (dfa_accept_states D)"
    unfolding D built_accept using assms(2) by (auto simp: state_id_def state_offset_def)
  have 2: "transition D 1 a = (if a \<in> set (dfa_alphabet D) then Inr 1 else Inl KeyError)" for a
    using transition_built_reject [OF assms(2), of a acc] transition_built_outside [of a N acc 1]
    by (simp add: D built_dfa_def)
  have 3: "simulate_from D 1 ys
             = (if \<forall>ch\<in>set ys. [ch] \<in> set (dfa_alphabet D) then Inr 1 else Inl KeyError)" for ys
    by (rule simulate_from_absorbing) (rule 2)
  have 4: "simulate_from D s (xs @ ys)
             = (if \<forall>ch\<in>set ys. [ch] \<in> set (dfa_alphabet D) then Inr 1 else Inl KeyError)"
    if "simulate_from D s xs = Inr 1" for s xs ys
    using that by (simp add: simulate_from_append 3)
  have 5: "simulate D (xs @ ys)
             = (if \<forall>ch\<in>set ys. [ch] \<in> set (dfa_alphabet D) then Inr False else Inl KeyError)"
    if "simulate_from D (dfa_start_state D) xs = Inr 1" for xs ys
    using 4 [OF that, of ys] 1 by (simp add: simulate_def)
  from 1 2 4 5 show ?thesis by blast
qed

text \<open>The DFA of the expression \<open>a\<close> is in state 1 after \<open>aa\<close>.\<close>

theorem reject_state_absorbing_witness:
  "(\<exists>D. to_DFA \<lparr>nfa_alphabet = [py ''a''], nfa_number_of_states = 2,
                  nfa_transition_function = [(1 :: int, [(py ''a'', [2])])],
                  nfa_start_state = 1, nfa_accept_states = Some [2]\<rparr> = Inr D
         \<and> simulate_from D (dfa_start_state D) (py ''aa'') = Inr 1
         \<and> simulate D (py ''aaa'') = Inr False
         \<and> 1 \<notin> set (dfa_accept_states D))
   \<and> reject_reached \<lparr>nfa_alphabet = [py ''a''], nfa_number_of_states = 2,
                  nfa_transition_function = [(1 :: int, [(py ''a'', [2])])],
                  nfa_start_state = 1, nfa_accept_states = Some [2]\<rparr>"
proof -
  let ?N = "\<lparr>nfa_alphabet = [py ''a''], nfa_number_of_states = 2,
             nfa_transition_function = [(1 :: int, [(py ''a'', [2])])],
             nfa_start_state = 1, nfa_accept_states = Some [2]\<rparr>"
  let ?D = "\<lparr>dfa_alphabet = [py ''a''], dfa_number_of_states = 3,
             dfa_transition_function =
               [(2, [(py ''a'', 3)]), (3, [(py ''a'', 1)]), (1, [(py ''a'', 1)])],
             dfa_start_state = 2, dfa_accept_states = [3]\<rparr> :: int DFA"
  have R: "reject_reached ?N"
    by (simp add: reject_reached_def subset_start_def nfa_eval py_def)
  have D: "to_DFA ?N = Inr ?D"
    by (simp add: nfa_eval py_def)
  have run: "simulate_from ?D (dfa_start_state ?D) (py ''aa'') = Inr 1"
    by (simp add: transition_def table_get_def py_def)
  from reject_state_absorbing [OF D R]
  have "1 \<notin> set (dfa_accept_states ?D)"
    and "\<forall>xs ys. simulate_from ?D (dfa_start_state ?D) xs = Inr 1 \<longrightarrow>
           simulate ?D (xs @ ys)
             = (if \<forall>ch\<in>set ys. [ch] \<in> set (dfa_alphabet ?D) then Inr False else Inl KeyError)"
    by blast+
  with run have "1 \<notin> set (dfa_accept_states ?D)"
    and "simulate ?D (py ''aa'' @ py ''a'')
           = (if \<forall>ch\<in>set (py ''a''). [ch] \<in> set (dfa_alphabet ?D)
              then Inr False else Inl KeyError)"
    by blast+
  then have "1 \<notin> set (dfa_accept_states ?D)" and "simulate ?D (py ''aaa'') = Inr False"
    by (simp_all add: py_def)
  with D run R show ?thesis by blast
qed

end
